theory Spec2Isabelle
  imports Complex_Main
begin

section \<open>Tensor primitives\<close>

text \<open>
  The repository is Python on top of torch. One-dimensional index tensors are modelled as
  \<open>int list\<close>, score tensors as \<open>real list\<close> (scores are idealised as reals: the
  properties below are about which value is stored where, not about rounding), and
  two-dimensional tensors as lists of rows. Every exception the code can raise is a value
  of \<open>error\<close>, and a failing operation returns \<open>Inl\<close>.
\<close>

datatype error = AssertionError | IndexError | RuntimeError | TypeError

definition bindE :: "error + 'a \<Rightarrow> ('a \<Rightarrow> error + 'b) \<Rightarrow> error + 'b" where
  "bindE m f = (case m of Inl e \<Rightarrow> Inl e | Inr x \<Rightarrow> f x)"

text \<open>
  Indexing a dimension of size \<open>n\<close> with an integer tensor: an entry in \<open>[0, n)\<close> is used
  as it is, an entry in \<open>[-n, 0)\<close> counts from the end (Python's negative indexing), and
  anything else raises IndexError.
\<close>

definition wrap_index :: "nat \<Rightarrow> int \<Rightarrow> error + nat" where
  "wrap_index n i =
     (if 0 \<le> i \<and> i < int n then Inr (nat i)
      else if - int n \<le> i \<and> i < 0 then Inr (nat (i + int n))
      else Inl IndexError)"

fun wrap_all :: "nat \<Rightarrow> int list \<Rightarrow> error + nat list" where
  "wrap_all n [] = Inr []"
| "wrap_all n (i # is) =
     bindE (wrap_index n i) (\<lambda>j. bindE (wrap_all n is) (\<lambda>js. Inr (j # js)))"

text \<open>\<open>xs[idx]\<close> for an integer tensor \<open>idx\<close>.\<close>

definition index_select :: "'a list \<Rightarrow> int list \<Rightarrow> error + 'a list" where
  "index_select xs idx = bindE (wrap_all (length xs) idx) (\<lambda>js. Inr (map (\<lambda>j. xs ! j) js))"

text \<open>\<open>xs[idx] = v\<close> for a scalar \<open>v\<close>, in place.\<close>

definition index_fill :: "'a list \<Rightarrow> int list \<Rightarrow> 'a \<Rightarrow> error + 'a list" where
  "index_fill xs idx v =
     bindE (wrap_all (length xs) idx) (\<lambda>js. Inr (fold (\<lambda>j ys. ys[j := v]) js xs))"

text \<open>\<open>xs[mask]\<close> for a boolean tensor \<open>mask\<close>, which must have the shape of \<open>xs\<close>.\<close>

definition mask_select :: "'a list \<Rightarrow> bool list \<Rightarrow> error + 'a list" where
  "mask_select xs msk =
     (if length msk = length xs then Inr (map fst (filter snd (zip xs msk)))
      else Inl IndexError)"

section \<open>The CSR neighbour expander\<close>

text \<open>
  Modelled from the spec: \<open>_batched_arange\<close> is imported from torch\_frame and its body is
  not among the sources. Section 4.1 of the specification asks for a batch-id array giving,
  for each output element, the position of its row within the selection, next to a
  flattened per-row offset; this is the reference semantics stated in the function's
  docstring, \<open>batch = cat([full((c,), i) for i, c in enumerate(count)])\<close> and
  \<open>arange = cat([arange(c) for c in count])\<close>. A negative count is an error.
\<close>

definition batched_arange :: "int list \<Rightarrow> error + (int list \<times> int list)" where
  "batched_arange count =
     (if \<exists>c \<in> set count. c < 0 then Inl RuntimeError
      else Inr (concat (map (\<lambda>(i, c). replicate (nat c) (int i)) (enumerate 0 count)),
                concat (map (\<lambda>c. map int [0..<nat c]) count)))"

text \<open>
  \<open>get_rhs_index\<close> of \<open>benchmark/relbench_multi_vae.py\<close>:
  \<^verbatim>\<open>
  src_batch, arange = _batched_arange(rowptr[src_index + 1] - rowptr[src_index])
  dst_index = col[arange + rowptr[src_index][src_batch]]
  return src_batch, dst_index
  \<close>
\<close>

definition get_rhs_index ::
  "int list \<Rightarrow> int list \<Rightarrow> int list \<Rightarrow> error + (int list \<times> int list)" where
  "get_rhs_index src_index rowptr col =
     bindE (index_select rowptr (map (\<lambda>r. r + 1) src_index)) (\<lambda>hi.
     bindE (index_select rowptr src_index) (\<lambda>lo.
     bindE (batched_arange (map2 (\<lambda>h l. h - l) hi lo)) (\<lambda>(src_batch, arange).
     bindE (index_select rowptr src_index) (\<lambda>starts.
     bindE (index_select starts src_batch) (\<lambda>base.
     bindE (index_select col (map2 (\<lambda>a b. a + b) arange base)) (\<lambda>dst_index.
     Inr (src_batch, dst_index)))))))"

text \<open>
  The vocabulary of the specification for a CSR adjacency: the out-degree of a row and
  its stored neighbour slice \<open>col[rowptr[r]:rowptr[r+1]]\<close>.
\<close>

definition degree :: "int list \<Rightarrow> int \<Rightarrow> int" where
  "degree rowptr r = rowptr ! (nat r + 1) - rowptr ! nat r"

definition csr_row :: "int list \<Rightarrow> int list \<Rightarrow> int \<Rightarrow> int list" where
  "csr_row rowptr col r =
     take (nat (rowptr ! (nat r + 1)) - nat (rowptr ! nat r)) (drop (nat (rowptr ! nat r)) col)"

definition csr_wf :: "int list \<Rightarrow> int list \<Rightarrow> bool" where
  "csr_wf rowptr col \<longleftrightarrow>
     rowptr \<noteq> [] \<and> sorted rowptr \<and> 0 \<le> rowptr ! 0 \<and> int (length col) = last rowptr"

definition valid_rows :: "int list \<Rightarrow> int list \<Rightarrow> bool" where
  "valid_rows rowptr src_index \<longleftrightarrow> (\<forall>r \<in> set src_index. 0 \<le> r \<and> r + 1 < int (length rowptr))"

section \<open>The candidate sampler and the index remapper\<close>

text \<open>
  The fields of \<open>ContextGNN\<close> that the per-batch pipeline reads. The learned modules
  (\<open>rhs_embedding\<close>, \<open>lhs_projector\<close>, \<open>head\<close>, \<open>lin_offset_idgnn\<close>, \<open>lin_offset_embgnn\<close>)
  are external
  collaborators and are kept abstract: each is a function from its input to its output.
  \<open>rhs_sample_size\<close> is \<open>Optional[int]\<close> in the constructor.
\<close>

record contextgnn =
  num_rhs_nodes :: nat
  rhs_sample_size :: "int option"
  rhs_embedding :: "int list \<Rightarrow> real list list"
  lhs_projector :: "real list \<Rightarrow> real list"
  head :: "real list \<Rightarrow> real"
  lin_offset_idgnn :: "real list \<Rightarrow> real"
  lin_offset_embgnn :: "real list \<Rightarrow> real"

text \<open>
  \<open>vals.topk(k, sorted=True).indices\<close>: the positions of the \<open>k\<close> largest values, largest
  first; \<open>k\<close> outside \<open>[0, len(vals)]\<close> raises. torch does not fix the order among equal
  values; the model takes the lower position first. \<open>is_topk\<close> is the contract that every
  tie-breaking satisfies, and the results below are derived from that contract alone.
\<close>

definition topk :: "real list \<Rightarrow> int \<Rightarrow> error + nat list" where
  "topk vals k =
     (if 0 \<le> k \<and> k \<le> int (length vals)
      then Inr (take (nat k) (sort_key (\<lambda>i. - (vals ! i)) [0..<length vals]))
      else Inl RuntimeError)"

definition is_topk :: "real list \<Rightarrow> nat \<Rightarrow> nat list \<Rightarrow> bool" where
  "is_topk vals k idx \<longleftrightarrow>
     length idx = k \<and> distinct idx \<and> (\<forall>i \<in> set idx. i < length vals) \<and>
     sorted (map (\<lambda>i. - (vals ! i)) idx) \<and>
     (\<forall>j < length vals. j \<notin> set idx \<longrightarrow> (\<forall>i \<in> set idx. vals ! j \<le> vals ! i))"

text \<open>
  \<open>torch.rand(n)\<close> is modelled by its result \<open>draws\<close>, which the caller supplies: \<open>n\<close>
  values in \<open>[0, 1)\<close>.
\<close>

definition rand_ok :: "nat \<Rightarrow> real list \<Rightarrow> bool" where
  "rand_ok n draws \<longleftrightarrow> length draws = n \<and> (\<forall>d \<in> set draws. 0 \<le> d \<and> d < 1)"

definition valid_ids :: "nat \<Rightarrow> int list \<Rightarrow> bool" where
  "valid_ids n ids \<longleftrightarrow> (\<forall>i \<in> set ids. 0 \<le> i \<and> i < int n)"

text \<open>
  Lines 100 to 107 of \<open>sample_step\<close>, the Candidate Sampler:
  \<^verbatim>\<open>
  rnd = torch.rand(self.num_rhs_nodes, device=rhs_idgnn_index.device)
  rnd[rhs_idgnn_index] = 3.
  assert rhs_y_index is not None  # always pass in dst index
  rnd[rhs_y_index] = 4.
  rhs_index = rnd.topk(self.rhs_sample_size, sorted=True).indices
  \<close>
  \<open>priorities\<close> is the priority array just before the top-k selection.
\<close>

definition priorities :: "real list \<Rightarrow> int list \<Rightarrow> int list option \<Rightarrow> error + real list" where
  "priorities draws rhs_idgnn_index rhs_y_index =
     bindE (index_fill draws rhs_idgnn_index 3) (\<lambda>rnd.
     bindE (case rhs_y_index of None \<Rightarrow> Inl AssertionError | Some y \<Rightarrow> Inr y) (\<lambda>rhs_y_index.
     index_fill rnd rhs_y_index 4))"

definition candidate_sampler ::
  "contextgnn \<Rightarrow> real list \<Rightarrow> int list \<Rightarrow> int list option \<Rightarrow> error + int list" where
  "candidate_sampler self draws rhs_idgnn_index rhs_y_index =
     bindE (priorities draws rhs_idgnn_index rhs_y_index) (\<lambda>rnd.
     bindE (case rhs_sample_size self of None \<Rightarrow> Inl TypeError | Some k \<Rightarrow> Inr k) (\<lambda>k.
     bindE (topk rnd k) (\<lambda>rhs_index. Inr (map int rhs_index))))"

text \<open>\<open>xs.max()\<close>, which raises on an empty tensor.\<close>

definition tensor_max :: "int list \<Rightarrow> error + int" where
  "tensor_max xs = (if xs = [] then Inl RuntimeError else Inr (Max (set xs)))"

text \<open>\<open>xs[idx] = vals\<close> for tensors \<open>idx\<close> and \<open>vals\<close> of one shape; later writes win.\<close>

definition index_put :: "'a list \<Rightarrow> int list \<Rightarrow> 'a list \<Rightarrow> error + 'a list" where
  "index_put xs idx vals =
     (if length vals \<noteq> length idx then Inl RuntimeError
      else bindE (wrap_all (length xs) idx) (\<lambda>js.
           Inr (fold (\<lambda>(j, v) ys. ys[j := v]) (zip js vals) xs)))"

text \<open>
  Modelled from the spec: \<open>map_index\<close> is imported from torch\_geometric and its body is not
  among the sources. Section 4.3 of the specification: given ids in the catalog space and
  the sampled array, it returns the position of each id that is present and a validity
  mask marking which ids were found; on the inclusive fast path the mask step is skipped
  and no mask is returned. The model follows the library's helper-vector algorithm:
  \<^verbatim>\<open>
  if max_index is None:
      max_index = torch.maximum(src.max(), index.max())
  if inclusive: assoc = src.new_empty(max_index + 1)
  else:         assoc = src.new_full((max_index + 1, ), -1)
  assoc[index] = torch.arange(index.numel())
  out = assoc[src]
  if inclusive: return out, None
  else:         mask = out != -1; return out[mask], mask
  \<close>
  \<open>junk\<close> is the content of the uninitialised memory that \<open>new_empty\<close> hands out.
\<close>

definition map_index ::
  "(nat \<Rightarrow> int) \<Rightarrow> int list \<Rightarrow> int list \<Rightarrow> int option \<Rightarrow> bool \<Rightarrow>
   error + (int list \<times> bool list option)" where
  "map_index junk src index max_index inclusive =
     bindE (case max_index of
              Some m \<Rightarrow> Inr m
            | None \<Rightarrow> bindE (tensor_max src) (\<lambda>a. bindE (tensor_max index) (\<lambda>b. Inr (max a b)))) (\<lambda>m.
     if m + 1 < 0 then Inl RuntimeError
     else
       bindE (index_put (if inclusive then map junk [0..<nat (m + 1)]
                         else replicate (nat (m + 1)) (- 1))
                index (map int [0..<length index])) (\<lambda>assoc.
       bindE (index_select assoc src) (\<lambda>out.
       if inclusive then Inr (out, None)
       else bindE (mask_select out (map (\<lambda>v. v \<noteq> - 1) out)) (\<lambda>kept.
            Inr (kept, Some (map (\<lambda>v. v \<noteq> - 1) out))))))"

text \<open>
  \<open>xs[mask]\<close> where \<open>mask\<close> is the second component returned by \<open>map_index\<close>. The code
  reaches it only after a non-inclusive remap, which always returns a mask.
\<close>

definition mask_filter :: "'a list \<Rightarrow> bool list option \<Rightarrow> error + 'a list" where
  "mask_filter xs msk = (case msk of None \<Rightarrow> Inl TypeError | Some m \<Rightarrow> mask_select xs m)"

text \<open>
  \<open>ContextGNN.sample_step\<close>, line by line. \<open>draws\<close> is the result of \<open>torch.rand\<close>, and
  \<open>junk 0\<close> and \<open>junk 1\<close> are the uninitialised buffers of the two remaps.
  \<^verbatim>\<open>
  rnd = torch.rand(self.num_rhs_nodes, device=rhs_idgnn_index.device)
  rnd[rhs_idgnn_index] = 3.
  assert rhs_y_index is not None  # always pass in dst index
  rnd[rhs_y_index] = 4.
  rhs_index = rnd.topk(self.rhs_sample_size, sorted=True).indices
  inclusive = rhs_y_index.numel() <= self.rhs_sample_size
  rhs_y_index, mask = map_index(rhs_y_index, rhs_index,
                                max_index=self.num_rhs_nodes, inclusive=inclusive)
  lhs_y_batch = lhs_y_batch if inclusive else lhs_y_batch[mask]
  rhs_embedding = self.rhs_embedding(rhs_index)
  inclusive = (rhs_y_index.numel() + rhs_idgnn_index.numel() <= self.rhs_sample_size)
  rhs_idgnn_index, mask = map_index(rhs_idgnn_index, rhs_index, inclusive=inclusive)
  if not inclusive:
      lhs_idgnn_batch = lhs_idgnn_batch[mask]
      rhs_gnn_embedding = rhs_gnn_embedding[mask]
  return (rhs_idgnn_index, rhs_embedding, lhs_idgnn_batch,
          rhs_gnn_embedding, lhs_y_batch, rhs_y_index)
  \<close>
\<close>

definition sample_step ::
  "contextgnn \<Rightarrow> real list \<Rightarrow> (nat \<Rightarrow> nat \<Rightarrow> int) \<Rightarrow> int list \<Rightarrow> int list \<Rightarrow> real list list \<Rightarrow>
   int list \<Rightarrow> int list option \<Rightarrow>
   error + (int list \<times> real list list \<times> int list \<times> real list list \<times> int list \<times> int list)" where
  "sample_step self draws junk rhs_idgnn_index lhs_idgnn_batch rhs_gnn_embedding
       lhs_y_batch rhs_y_index =
     bindE (index_fill draws rhs_idgnn_index 3) (\<lambda>rnd.
     bindE (case rhs_y_index of None \<Rightarrow> Inl AssertionError | Some y \<Rightarrow> Inr y) (\<lambda>rhs_y_index.
     bindE (index_fill rnd rhs_y_index 4) (\<lambda>rnd.
     bindE (case rhs_sample_size self of None \<Rightarrow> Inl TypeError | Some k \<Rightarrow> Inr k) (\<lambda>k.
     bindE (topk rnd k) (\<lambda>top.
     let rhs_index = map int top;
         inclusive = (int (length rhs_y_index) \<le> k) in
     bindE (map_index (junk 0) rhs_y_index rhs_index (Some (int (num_rhs_nodes self)))
              inclusive) (\<lambda>(rhs_y_index, msk).
     bindE (if inclusive then Inr lhs_y_batch else mask_filter lhs_y_batch msk) (\<lambda>lhs_y_batch.
     let rhs_emb = rhs_embedding self rhs_index;
         inclusive = (int (length rhs_y_index) + int (length rhs_idgnn_index) \<le> k) in
     bindE (map_index (junk 1) rhs_idgnn_index rhs_index None inclusive) (\<lambda>(rhs_idgnn_index, msk).
     bindE (if \<not> inclusive
            then bindE (mask_filter lhs_idgnn_batch msk) (\<lambda>b.
                 bindE (mask_filter rhs_gnn_embedding msk) (\<lambda>e. Inr (b, e)))
            else Inr (lhs_idgnn_batch, rhs_gnn_embedding)) (\<lambda>(lhs_idgnn_batch, rhs_gnn_embedding).
     Inr (rhs_idgnn_index, rhs_emb, lhs_idgnn_batch, rhs_gnn_embedding,
          lhs_y_batch, rhs_y_index))))))))))"

text \<open>
  The vocabulary of the specification for the Index Remapper: the position of an id within
  the sampled array (the first one, should the id occur more than once).
\<close>

definition position :: "int list \<Rightarrow> int \<Rightarrow> int" where
  "position xs x = int (length (takeWhile (\<lambda>y. y \<noteq> x) xs))"

section \<open>The logit fuser\<close>

definition dot :: "real list \<Rightarrow> real list \<Rightarrow> real" where
  "dot a b = sum_list (map2 (\<lambda>x y. x * y) a b)"

text \<open>\<open>A @ R.t()\<close> for \<open>A\<close> of shape \<open>[B, D]\<close> and \<open>R\<close> of shape \<open>[K, D]\<close>.\<close>

definition matmul_t :: "real list list \<Rightarrow> real list list \<Rightarrow> error + real list list" where
  "matmul_t A R =
     (if \<forall>a \<in> set A. \<forall>r \<in> set R. length a = length r
      then Inr (map (\<lambda>a. map (\<lambda>r. dot a r) R) A)
      else Inl RuntimeError)"

text \<open>\<open>(X * Y).sum(dim=-1)\<close> for two tensors of one shape \<open>[S, C]\<close>.\<close>

definition rowwise_dot :: "real list list \<Rightarrow> real list list \<Rightarrow> error + real list" where
  "rowwise_dot X Y =
     (if length X = length Y \<and> (\<forall>(x, y) \<in> set (zip X Y). length x = length y)
      then Inr (map2 dot X Y)
      else Inl RuntimeError)"

text \<open>
  \<open>M[rows, cols] = vals\<close> for a matrix with \<open>ncols\<close> columns and three tensors of one
  length; the cells are written in order, so that a later write to the same cell wins.
\<close>

definition index_put2 ::
  "nat \<Rightarrow> 'a list list \<Rightarrow> int list \<Rightarrow> int list \<Rightarrow> 'a list \<Rightarrow> error + 'a list list" where
  "index_put2 ncols M rows cols vals =
     (if length rows \<noteq> length cols then Inl IndexError
      else if length vals \<noteq> length rows then Inl RuntimeError
      else bindE (wrap_all (length M) rows) (\<lambda>is.
           bindE (wrap_all ncols cols) (\<lambda>js.
           Inr (fold (\<lambda>(i, j, v) N. N[i := (N ! i)[j := v]]) (zip is (zip js vals)) M))))"

text \<open>
  \<open>ContextGNN.construct_logits\<close>:
  \<^verbatim>\<open>
  embgnn_logits = lhs_embedding_projected @ rhs_embedding.t()
  embgnn_offset_logits = self.lin_offset_embgnn(lhs_embedding_projected).flatten()
  embgnn_logits += embgnn_offset_logits.view(-1, 1)
  idgnn_logits = self.head(rhs_gnn_embedding).flatten()
  idgnn_logits += (lhs_embedding[lhs_idgnn_batch] * rhs_gnn_embedding).sum(dim=-1).flatten()
  idgnn_offset_logits = self.lin_offset_idgnn(lhs_embedding_projected).flatten()
  idgnn_logits = idgnn_logits + idgnn_offset_logits[lhs_idgnn_batch]
  embgnn_logits[lhs_idgnn_batch, rhs_idgnn_index] = idgnn_logits
  return embgnn_logits
  \<close>
  The modules \<open>head\<close>, \<open>lin_offset_idgnn\<close> and \<open>lin_offset_embgnn\<close> map each row to one
  number.
\<close>

definition construct_logits ::
  "contextgnn \<Rightarrow> real list list \<Rightarrow> real list list \<Rightarrow> real list list \<Rightarrow> real list list \<Rightarrow>
   int list \<Rightarrow> int list \<Rightarrow> error + real list list" where
  "construct_logits self lhs_embedding_projected lhs_embedding rhs_gnn_embedding rhs_emb
       lhs_idgnn_batch rhs_idgnn_index =
     bindE (matmul_t lhs_embedding_projected rhs_emb) (\<lambda>embgnn_logits.
     let embgnn_offset_logits = map (lin_offset_embgnn self) lhs_embedding_projected;
         embgnn_logits = map2 (\<lambda>row off. map (\<lambda>x. x + off) row) embgnn_logits
                           embgnn_offset_logits;
         idgnn_logits = map (head self) rhs_gnn_embedding in
     bindE (index_select lhs_embedding lhs_idgnn_batch) (\<lambda>lhs_rows.
     bindE (rowwise_dot lhs_rows rhs_gnn_embedding) (\<lambda>inter.
     let idgnn_logits = map2 (\<lambda>x y. x + y) idgnn_logits inter;
         idgnn_offset_logits = map (lin_offset_idgnn self) lhs_embedding_projected in
     bindE (index_select idgnn_offset_logits lhs_idgnn_batch) (\<lambda>offs.
     let idgnn_logits = map2 (\<lambda>x y. x + y) idgnn_logits offs in
     index_put2 (length rhs_emb) embgnn_logits lhs_idgnn_batch rhs_idgnn_index
       idgnn_logits))))"

text \<open>
  \<open>ContextGNN.forward_sample_softmax\<close> from the point where the graph network has
  returned: \<open>lhs_embedding\<close> is \<open>x_dict[entity_table][:batch_size]\<close>, \<open>rhs_gnn_embedding\<close> is
  \<open>x_dict[dst_table]\<close>, and \<open>rhs_idgnn_index\<close> and \<open>lhs_idgnn_batch\<close> are read from the
  batch. \<open>dst_index\<close> is \<open>Optional[Tensor]\<close> with default \<open>None\<close>; \<open>src_batch\<close> is taken as
  a tensor.
  \<^verbatim>\<open>
  lhs_embedding_projected = self.lhs_projector(lhs_embedding)
  (rhs_idgnn_index, rhs_embedding, lhs_idgnn_batch, rhs_gnn_embedding,
   lhs_y_batch, rhs_y_index) = self.sample_step(rhs_idgnn_index, lhs_idgnn_batch,
                                                rhs_gnn_embedding, src_batch, dst_index)
  embgnn_logits = self.construct_logits(lhs_embedding_projected, lhs_embedding,
                                        rhs_gnn_embedding, rhs_embedding,
                                        lhs_idgnn_batch, rhs_idgnn_index)
  return embgnn_logits, lhs_y_batch, rhs_y_index
  \<close>
\<close>

definition forward_sample_softmax ::
  "contextgnn \<Rightarrow> real list \<Rightarrow> (nat \<Rightarrow> nat \<Rightarrow> int) \<Rightarrow> real list list \<Rightarrow> real list list \<Rightarrow>
   int list \<Rightarrow> int list \<Rightarrow> int list \<Rightarrow> int list option \<Rightarrow>
   error + (real list list \<times> int list \<times> int list)" where
  "forward_sample_softmax self draws junk lhs_embedding rhs_gnn_embedding rhs_idgnn_index
       lhs_idgnn_batch src_batch dst_index =
     (let lhs_embedding_projected = map (lhs_projector self) lhs_embedding in
      bindE (sample_step self draws junk rhs_idgnn_index lhs_idgnn_batch rhs_gnn_embedding
               src_batch dst_index)
        (\<lambda>(rhs_idgnn_index, rhs_emb, lhs_idgnn_batch, rhs_gnn_embedding, lhs_y_batch,
           rhs_y_index).
      bindE (construct_logits self lhs_embedding_projected lhs_embedding rhs_gnn_embedding
               rhs_emb lhs_idgnn_batch rhs_idgnn_index) (\<lambda>embgnn_logits.
      Inr (embgnn_logits, lhs_y_batch, rhs_y_index))))"

section \<open>A concrete scenario\<close>

text \<open>
  The scenario of section 8 of the specification: ten candidates and a budget of four. The
  learned modules are replaced by simple functions, and the draws are fixed.
\<close>

definition scenario_model :: contextgnn where
  "scenario_model =
     \<lparr>num_rhs_nodes = 10, rhs_sample_size = Some 4,
      rhs_embedding = (\<lambda>ids. map (\<lambda>i. [of_int i, 1]) ids),
      lhs_projector = (\<lambda>x. x),
      head = (\<lambda>x. sum_list x),
      lin_offset_idgnn = (\<lambda>x. 100),
      lin_offset_embgnn = (\<lambda>x. 1000)\<rparr>"

definition scenario_draws :: "real list" where
  "scenario_draws = [1/10, 2/10, 3/10, 4/10, 5/10, 6/10, 7/10, 8/10, 9/10, 1/20]"

section \<open>Auxiliary facts\<close>

subsection \<open>Indexing and the expander\<close>

lemma bindE_Inr [simp]: "bindE (Inr x) f = f x"
  by (simp add: bindE_def)

lemma bindE_Inl [simp]: "bindE (Inl e) f = Inl e"
  by (simp add: bindE_def)

lemma wrap_all_valid:
  "\<forall>i \<in> set idx. 0 \<le> i \<and> i < int n \<Longrightarrow> wrap_all n idx = Inr (map nat idx)"
  by (induction idx) (simp_all add: wrap_index_def)

lemma index_select_valid:
  "\<forall>i \<in> set idx. 0 \<le> i \<and> i < int (length xs) \<Longrightarrow>
   index_select xs idx = Inr (map (\<lambda>i. xs ! nat i) idx)"
  by (simp add: index_select_def wrap_all_valid comp_def)

lemma map_nth_fun: "map (\<lambda>i. F (xs ! i)) [0..<length xs] = map F xs"
  by (rule nth_equalityI) simp_all

lemma map_enumerate_upt:
  "map F (enumerate 0 xs) = map (\<lambda>i. F (i, xs ! i)) [0..<length xs]"
  by (rule nth_equalityI) (simp_all add: nth_enumerate_eq)

lemma zip_concat_map:
  "\<forall>x \<in> set xs. length (A x) = length (B x) \<Longrightarrow>
   zip (concat (map A xs)) (concat (map B xs)) = concat (map (\<lambda>x. zip (A x) (B x)) xs)"
  by (induction xs) simp_all

lemma take_drop_as_map:
  "m + n \<le> length xs \<Longrightarrow> take n (drop m xs) = map (\<lambda>j. xs ! (m + j)) [0..<n]"
  by (rule nth_equalityI) simp_all

lemma concat_single_block:
  "i < n \<Longrightarrow> concat (map (\<lambda>j. if j = i then x else []) [0..<n]) = x"
  by (induction n) (auto simp: less_Suc_eq)

lemma filter_concat_blocks:
  assumes "i < n" and "\<forall>j<n. length (R j) = d j"
  shows "map snd (filter (\<lambda>p. fst p = int i)
           (zip (concat (map (\<lambda>j. replicate (d j) (int j)) [0..<n])) (concat (map R [0..<n])))) = R i"
proof -
  have z: "zip (concat (map (\<lambda>j. replicate (d j) (int j)) [0..<n])) (concat (map R [0..<n]))
        = concat (map (\<lambda>j. zip (replicate (d j) (int j)) (R j)) [0..<n])"
    using assms(2) by (intro zip_concat_map) simp
  have f: "\<And>j. j < n \<Longrightarrow> map snd (filter (\<lambda>p. fst p = int i) (zip (replicate (d j) (int j)) (R j)))
        = (if j = i then R i else [])"
  proof -
    fix j assume "j < n"
    then have l: "length (R j) = d j" using assms(2) by simp
    have s: "set (zip (replicate (d j) (int j)) (R j)) \<subseteq> {int j} \<times> UNIV"
      by (auto dest: set_zip_leftD)
    show "map snd (filter (\<lambda>p. fst p = int i) (zip (replicate (d j) (int j)) (R j)))
        = (if j = i then R i else [])"
    proof (cases "j = i")
      case True
      have "filter (\<lambda>p. fst p = int i) (zip (replicate (d j) (int j)) (R j)) = zip (replicate (d j) (int j)) (R j)"
        using s True by (intro filter_True) auto
      then show ?thesis using True l by (simp add: map_snd_zip)
    next
      case False
      have "filter (\<lambda>p. fst p = int i) (zip (replicate (d j) (int j)) (R j)) = []"
        using s False by (auto simp: filter_empty_conv)
      then show ?thesis using False by simp
    qed
  qed
  have "map snd (filter (\<lambda>p. fst p = int i) (concat (map (\<lambda>j. zip (replicate (d j) (int j)) (R j)) [0..<n])))
      = concat (map (\<lambda>j. map snd (filter (\<lambda>p. fst p = int i) (zip (replicate (d j) (int j)) (R j)))) [0..<n])"
    by (simp add: map_concat filter_concat comp_def)
  also have "\<dots> = concat (map (\<lambda>j. if j = i then R i else []) [0..<n])"
    using f by (intro arg_cong[where f=concat] map_cong) auto
  also have "\<dots> = R i" using assms(1) by (rule concat_single_block)
  finally show ?thesis using z by simp
qed

lemma get_rhs_index_closed_form:
  assumes wf: "csr_wf rowptr col" and rows: "valid_rows rowptr src_index"
  shows "get_rhs_index src_index rowptr col =
     Inr (concat (map (\<lambda>i. replicate (nat (degree rowptr (src_index ! i))) (int i)) [0..<length src_index]),
          concat (map (\<lambda>i. csr_row rowptr col (src_index ! i)) [0..<length src_index]))"
proof -
  let ?n = "length src_index"
  let ?lo = "\<lambda>r. rowptr ! nat r"
  let ?d = "\<lambda>r. nat (degree rowptr r)"
  have srt: "sorted rowptr" and ne: "rowptr \<noteq> []" and z: "0 \<le> rowptr ! 0"
    and len: "int (length col) = last rowptr"
    using wf by (simp_all add: csr_wf_def)
  have r: "\<And>r. r \<in> set src_index \<Longrightarrow> 0 \<le> r \<and> nat r + 1 < length rowptr"
    using rows by (auto simp: valid_rows_def)
  have r': "\<And>r. r \<in> set src_index \<Longrightarrow> 0 \<le> r \<and> r + 1 < int (length rowptr)"
    using rows by (auto simp: valid_rows_def)
  have nonneg: "\<And>i. i < length rowptr \<Longrightarrow> 0 \<le> rowptr ! i"
    using z srt by (metis le0 order_trans sorted_nth_mono)
  have top: "\<And>i. i < length rowptr \<Longrightarrow> rowptr ! i \<le> int (length col)"
    using len srt ne by (simp add: last_conv_nth sorted_nth_mono)
  have mono: "\<And>r. r \<in> set src_index \<Longrightarrow> ?lo r \<le> rowptr ! (nat r + 1)"
    using r srt by (simp add: sorted_nth_mono)
  have hi: "index_select rowptr (map (\<lambda>r. r + 1) src_index) = Inr (map (\<lambda>r. rowptr ! (nat r + 1)) src_index)"
  proof -
    have "index_select rowptr (map (\<lambda>r. r + 1) src_index)
        = Inr (map (\<lambda>i. rowptr ! nat i) (map (\<lambda>r. r + 1) src_index))"
      using r' by (intro index_select_valid) auto
    also have "map (\<lambda>i. rowptr ! nat i) (map (\<lambda>r. r + 1) src_index) = map (\<lambda>r. rowptr ! (nat r + 1)) src_index"
      using r by (auto simp: nat_add_distrib)
    finally show ?thesis .
  qed
  have lo: "index_select rowptr src_index = Inr (map ?lo src_index)"
    using r' by (intro index_select_valid) fastforce
  have cnt: "map2 (\<lambda>h l. h - l) (map (\<lambda>r. rowptr ! (nat r + 1)) src_index) (map ?lo src_index)
      = map (degree rowptr) src_index"
    by (simp add: zip_map_map zip_same_conv_map degree_def comp_def)
  have dge: "\<And>r. r \<in> set src_index \<Longrightarrow> 0 \<le> degree rowptr r"
    using mono by (simp add: degree_def)
  let ?batch = "concat (map (\<lambda>i. replicate (?d (src_index ! i)) (int i)) [0..<?n])"
  let ?ar = "concat (map (\<lambda>r. map int [0..<?d r]) src_index)"
  have ba: "batched_arange (map (degree rowptr) src_index) = Inr (?batch, ?ar)"
  proof -
    have neg: "\<not> (\<exists>c \<in> set (map (degree rowptr) src_index). c < 0)"
      using dge by fastforce
    have m: "map (\<lambda>i. replicate (nat (map (degree rowptr) src_index ! i)) (int i)) [0..<?n]
        = map (\<lambda>i. replicate (?d (src_index ! i)) (int i)) [0..<?n]"
      by (rule map_cong) simp_all
    show ?thesis
      unfolding batched_arange_def map_enumerate_upt using neg
      by (simp add: m comp_def del: set_map)
  qed
  have base: "index_select (map ?lo src_index) ?batch
      = Inr (concat (map (\<lambda>r. replicate (?d r) (?lo r)) src_index))"
  proof -
    have "index_select (map ?lo src_index) ?batch = Inr (map (\<lambda>i. map ?lo src_index ! nat i) ?batch)"
      by (intro index_select_valid) auto
    also have "map (\<lambda>i. map ?lo src_index ! nat i) ?batch
        = concat (map (\<lambda>i. replicate (?d (src_index ! i)) (map ?lo src_index ! i)) [0..<?n])"
      by (simp add: map_concat comp_def)
    also have "\<dots> = concat (map (\<lambda>i. replicate (?d (src_index ! i)) (?lo (src_index ! i))) [0..<?n])"
      by (intro arg_cong[where f=concat] map_cong) simp_all
    also have "\<dots> = concat (map (\<lambda>r. replicate (?d r) (?lo r)) src_index)"
      by (simp add: map_nth_fun[where F="\<lambda>r. replicate (?d r) (?lo r)"])
    finally show ?thesis .
  qed
  let ?idx = "concat (map (\<lambda>r. map (\<lambda>j. int j + ?lo r) [0..<?d r]) src_index)"
  have sum: "map2 (\<lambda>a b. a + b) ?ar (concat (map (\<lambda>r. replicate (?d r) (?lo r)) src_index)) = ?idx"
  proof -
    have "zip ?ar (concat (map (\<lambda>r. replicate (?d r) (?lo r)) src_index))
        = concat (map (\<lambda>r. zip (map int [0..<?d r]) (replicate (?d r) (?lo r))) src_index)"
      by (intro zip_concat_map) simp
    moreover have "\<And>r. map (\<lambda>(a, b). a + b) (zip (map int [0..<?d r]) (replicate (?d r) (?lo r)))
        = map (\<lambda>j. int j + ?lo r) [0..<?d r]"
      by (rule nth_equalityI) simp_all
    ultimately show ?thesis by (simp add: map_concat comp_def)
  qed
  have rng: "\<forall>i \<in> set ?idx. 0 \<le> i \<and> i < int (length col)"
  proof
    fix i assume "i \<in> set ?idx"
    then obtain r j where rj: "r \<in> set src_index" "j < ?d r" "i = int j + ?lo r" by auto
    have "0 \<le> ?lo r" using r[OF rj(1)] nonneg by simp
    moreover have "int j + ?lo r < rowptr ! (nat r + 1)" using rj(2) by (simp add: degree_def)
    moreover have "rowptr ! (nat r + 1) \<le> int (length col)" using r[OF rj(1)] top by simp
    ultimately show "0 \<le> i \<and> i < int (length col)" using rj(3) by simp
  qed
  have dst: "index_select col ?idx = Inr (concat (map (csr_row rowptr col) src_index))"
  proof -
    have "index_select col ?idx = Inr (map (\<lambda>i. col ! nat i) ?idx)"
      using rng by (rule index_select_valid)
    moreover have "map (\<lambda>i. col ! nat i) ?idx = concat (map (csr_row rowptr col) src_index)"
    proof -
      have "\<And>r. r \<in> set src_index \<Longrightarrow>
          map (\<lambda>j. col ! nat (int j + ?lo r)) [0..<?d r] = csr_row rowptr col r"
      proof -
        fix r assume rs: "r \<in> set src_index"
        have a: "0 \<le> ?lo r" using r[OF rs] nonneg by simp
        have b: "rowptr ! (nat r + 1) \<le> int (length col)" using r[OF rs] top by simp
        have c: "?d r = nat (rowptr ! (nat r + 1)) - nat (?lo r)"
          using a mono[OF rs] by (simp add: degree_def nat_diff_distrib)
        have "nat (?lo r) + ?d r \<le> length col" using a b mono[OF rs] by (simp add: degree_def)
        then have "take (?d r) (drop (nat (?lo r)) col) = map (\<lambda>j. col ! (nat (?lo r) + j)) [0..<?d r]"
          by (rule take_drop_as_map)
        moreover have "\<And>j. nat (int j + ?lo r) = nat (?lo r) + j" using a by (simp add: nat_add_distrib)
        ultimately show "map (\<lambda>j. col ! nat (int j + ?lo r)) [0..<?d r] = csr_row rowptr col r"
          using c by (simp add: csr_row_def)
      qed
      then show ?thesis by (simp add: map_concat comp_def cong: map_cong)
    qed
    ultimately show ?thesis by simp
  qed
  have dst': "concat (map (csr_row rowptr col) src_index)
     = concat (map (\<lambda>i. csr_row rowptr col (src_index ! i)) [0..<?n])"
    by (simp add: map_nth_fun[where F="csr_row rowptr col"])
  show ?thesis
    unfolding get_rhs_index_def using hi lo cnt ba base sum dst dst' by simp
qed

subsection \<open>The priority array and the top-k selection\<close>

lemma fold_fill_length: "length (fold (\<lambda>j ys. ys[j := v]) js xs) = length xs"
  by (induction js arbitrary: xs) simp_all

lemma fold_fill_nth:
  "j < length xs \<Longrightarrow>
   fold (\<lambda>j ys. ys[j := v]) js xs ! j = (if j \<in> set js then v else xs ! j)"
proof (induction js arbitrary: xs)
  case Nil
  then show ?case by simp
next
  case (Cons a js)
  have "fold (\<lambda>j ys. ys[j := v]) (a # js) xs ! j = fold (\<lambda>j ys. ys[j := v]) js (xs[a := v]) ! j"
    by simp
  also have "\<dots> = (if j \<in> set js then v else xs[a := v] ! j)"
    using Cons.prems by (intro Cons.IH) simp
  also have "\<dots> = (if j \<in> set (a # js) then v else xs ! j)"
    using Cons.prems by (auto simp: nth_list_update)
  finally show ?case .
qed

lemma index_fill_valid:
  assumes "valid_ids (length xs) idx"
  shows "index_fill xs idx v
       = Inr (map (\<lambda>j. if int j \<in> set idx then v else xs ! j) [0..<length xs])"
proof -
  have w: "wrap_all (length xs) idx = Inr (map nat idx)"
    using assms by (intro wrap_all_valid) (simp add: valid_ids_def)
  have m: "\<And>j. (j \<in> nat ` set idx) = (int j \<in> set idx)"
  proof -
    fix j
    show "(j \<in> nat ` set idx) = (int j \<in> set idx)"
    proof
      assume "j \<in> nat ` set idx"
      then obtain i where "i \<in> set idx" "j = nat i" by auto
      moreover from this assms have "0 \<le> i" by (simp add: valid_ids_def)
      ultimately show "int j \<in> set idx" by simp
    next
      assume "int j \<in> set idx"
      then have "nat (int j) \<in> nat ` set idx" by (rule imageI)
      then show "j \<in> nat ` set idx" by simp
    qed
  qed
  have "fold (\<lambda>j ys. ys[j := v]) (map nat idx) xs
      = map (\<lambda>j. if int j \<in> set idx then v else xs ! j) [0..<length xs]"
    by (rule nth_equalityI) (simp_all add: fold_fill_length fold_fill_nth m)
  then show ?thesis using w by (simp add: index_fill_def)
qed

lemma priorities_valid:
  assumes "length draws = n" "valid_ids n P" "valid_ids n Y"
  shows "priorities draws P (Some Y)
       = Inr (map (\<lambda>j. if int j \<in> set Y then 4 else if int j \<in> set P then 3 else draws ! j) [0..<n])"
proof -
  let ?r = "map (\<lambda>j. if int j \<in> set P then 3 else draws ! j) [0..<n]"
  have 1: "index_fill draws P 3 = Inr ?r"
    using assms(1,2) index_fill_valid[of draws P 3] by simp
  have 2: "index_fill ?r Y 4
       = Inr (map (\<lambda>j. if int j \<in> set Y then 4 else ?r ! j) [0..<length ?r])"
    using assms(3) by (intro index_fill_valid) simp
  have 3: "map (\<lambda>j. if int j \<in> set Y then 4 else ?r ! j) [0..<length ?r]
      = map (\<lambda>j. if int j \<in> set Y then 4 else if int j \<in> set P then 3 else draws ! j) [0..<n]"
    by (rule map_cong) simp_all
  show ?thesis unfolding priorities_def using 1 2 3 by simp
qed

lemma topk_is_topk:
  assumes "0 \<le> k" "k \<le> int (length vals)"
  shows "\<exists>idx. topk vals k = Inr idx \<and> is_topk vals (nat k) idx"
proof -
  let ?s = "sort_key (\<lambda>i. - (vals ! i)) [0..<length vals]"
  let ?idx = "take (nat k) ?s"
  have t: "topk vals k = Inr ?idx" using assms by (simp add: topk_def)
  have len: "length ?idx = nat k" using assms by simp
  have dist: "distinct ?idx" by (intro distinct_take) simp
  have sub: "set ?idx \<subseteq> {..<length vals}"
    using set_take_subset[of "nat k" ?s] by auto
  have srt: "sorted (map (\<lambda>i. - (vals ! i)) ?s)" by simp
  have srt1: "sorted (map (\<lambda>i. - (vals ! i)) ?idx)"
    using srt by (simp add: take_map[symmetric] sorted_wrt_take)
  have rest: "\<forall>j < length vals. j \<notin> set ?idx \<longrightarrow> (\<forall>i \<in> set ?idx. vals ! j \<le> vals ! i)"
  proof (intro allI impI ballI)
    fix j i assume j: "j < length vals" "j \<notin> set ?idx" and i: "i \<in> set ?idx"
    have "j \<in> set ?s" using j(1) by simp
    then have "j \<in> set (take (nat k) ?s) \<union> set (drop (nat k) ?s)"
      by (metis append_take_drop_id set_append)
    then have jd: "j \<in> set (drop (nat k) ?s)" using j(2) by simp
    have "sorted (map (\<lambda>i. - (vals ! i)) (take (nat k) ?s @ drop (nat k) ?s))"
      using srt by simp
    then have "- (vals ! i) \<le> - (vals ! j)"
      using i jd unfolding map_append sorted_append by auto
    then show "vals ! j \<le> vals ! i" by simp
  qed
  show ?thesis using t len dist sub srt1 rest unfolding is_topk_def by auto
qed

lemma prio_nth:
  assumes "rnd = map (\<lambda>j. if int j \<in> set Y then 4 else if int j \<in> set P then 3 else draws ! j) [0..<n]"
    and "j < n"
  shows "rnd ! j = (if int j \<in> set Y then 4 else if int j \<in> set P then 3 else draws ! j)"
  using assms by simp

lemma card_image_int: "card (int ` set idx) = card (set idx)"
  by (intro card_image) (simp add: inj_on_def)

lemma forced_topk_required:
  assumes r: "rand_ok n draws" and vy: "valid_ids n Y" and tk: "is_topk rnd k idx"
    and rnd: "rnd = map (\<lambda>j. if int j \<in> set Y then 4 else if int j \<in> set P then 3 else draws ! j) [0..<n]"
    and c: "card (set Y) \<le> k"
  shows "set Y \<subseteq> int ` set idx"
proof (rule ccontr)
  assume "\<not> set Y \<subseteq> int ` set idx"
  then obtain y where y: "y \<in> set Y" "y \<notin> int ` set idx" by blast
  let ?j = "nat y"
  have y0: "0 \<le> y" "y < int n" using vy y(1) by (auto simp: valid_ids_def)
  have jn: "?j < n" using y0 by simp
  have jy: "int ?j = y" using y0 by simp
  have jidx: "?j \<notin> set idx" using y(2) jy by (metis imageI)
  have len: "length rnd = n" using rnd by simp
  have rj: "rnd ! ?j = 4" using prio_nth[OF rnd jn] jy y(1) by simp
  have sub: "int ` set idx \<subseteq> set Y - {y}"
  proof
    fix x assume "x \<in> int ` set idx"
    then obtain i where i: "i \<in> set idx" "x = int i" by blast
    have iN: "i < n" using tk i(1) len by (simp add: is_topk_def)
    have "rnd ! ?j \<le> rnd ! i" using tk jn jidx i(1) len by (simp add: is_topk_def)
    then have ge: "4 \<le> rnd ! i" using rj by simp
    have d: "draws ! i < 1" using r iN by (simp add: rand_ok_def)
    have "int i \<in> set Y"
    proof (rule ccontr)
      assume "int i \<notin> set Y"
      then have "rnd ! i = (if int i \<in> set P then 3 else draws ! i)"
        using prio_nth[OF rnd iN] by simp
      then show False using ge d by (simp split: if_splits)
    qed
    moreover have "int i \<noteq> y" using y(2) i(1) by blast
    ultimately show "x \<in> set Y - {y}" using i(2) by simp
  qed
  have "card (int ` set idx) \<le> card (set Y - {y})"
    using sub by (intro card_mono) simp_all
  moreover have "card (set Y - {y}) < card (set Y)"
    using y(1) by (intro card_Diff1_less) simp_all
  moreover have "card (int ` set idx) = k"
    using tk by (simp add: card_image_int is_topk_def distinct_card)
  ultimately show False using c by simp
qed

lemma forced_topk_priority:
  assumes r: "rand_ok n draws" and vp: "valid_ids n P" and tk: "is_topk rnd k idx"
    and rnd: "rnd = map (\<lambda>j. if int j \<in> set Y then 4 else if int j \<in> set P then 3 else draws ! j) [0..<n]"
    and c: "length (filter (\<lambda>y. y \<in> int ` set idx) Y) + length P \<le> k"
  shows "set P \<subseteq> int ` set idx"
proof (rule ccontr)
  let ?F = "filter (\<lambda>y. y \<in> int ` set idx) Y"
  assume "\<not> set P \<subseteq> int ` set idx"
  then obtain p where p: "p \<in> set P" "p \<notin> int ` set idx" by blast
  let ?j = "nat p"
  have p0: "0 \<le> p" "p < int n" using vp p(1) by (auto simp: valid_ids_def)
  have jn: "?j < n" using p0 by simp
  have jp: "int ?j = p" using p0 by simp
  have jidx: "?j \<notin> set idx" using p(2) jp by (metis imageI)
  have len: "length rnd = n" using rnd by simp
  have rj: "3 \<le> rnd ! ?j" using prio_nth[OF rnd jn] jp p(1) by simp
  have sub: "int ` set idx \<subseteq> set ?F \<union> (set P - {p})"
  proof
    fix x assume x: "x \<in> int ` set idx"
    then obtain i where i: "i \<in> set idx" "x = int i" by blast
    have iN: "i < n" using tk i(1) len by (simp add: is_topk_def)
    have "rnd ! ?j \<le> rnd ! i" using tk jn jidx i(1) len by (simp add: is_topk_def)
    then have ge: "3 \<le> rnd ! i" using rj by simp
    have d: "draws ! i < 1" using r iN by (simp add: rand_ok_def)
    have "int i \<in> set Y \<or> int i \<in> set P"
    proof (rule ccontr)
      assume "\<not> (int i \<in> set Y \<or> int i \<in> set P)"
      then have "rnd ! i = draws ! i" using prio_nth[OF rnd iN] by simp
      then show False using ge d by simp
    qed
    moreover have "int i \<noteq> p" using p(2) i(1) by blast
    ultimately show "x \<in> set ?F \<union> (set P - {p})" using i(2) x by auto
  qed
  have "card (int ` set idx) \<le> card (set ?F \<union> (set P - {p}))"
    using sub by (intro card_mono) simp_all
  also have "\<dots> \<le> card (set ?F) + card (set P - {p})" by (rule card_Un_le)
  also have "\<dots> < length ?F + length P"
  proof -
    have "card (set P - {p}) < card (set P)" using p(1) by (intro card_Diff1_less) simp_all
    moreover have "card (set P) \<le> length P" by (rule card_length)
    moreover have "card (set ?F) \<le> length ?F" by (rule card_length)
    ultimately show ?thesis by linarith
  qed
  finally have "card (int ` set idx) < k" using c by simp
  moreover have "card (int ` set idx) = k"
    using tk by (simp add: card_image_int is_topk_def distinct_card)
  ultimately show False by simp
qed

lemma candidate_sampler_ok:
  assumes "rand_ok n draws" "valid_ids n P" "valid_ids n Y"
    and "rhs_sample_size self = Some k" "0 \<le> k" "k \<le> int n"
  shows "\<exists>idx. is_topk (map (\<lambda>j. if int j \<in> set Y then 4 else if int j \<in> set P then 3 else draws ! j) [0..<n]) (nat k) idx
            \<and> candidate_sampler self draws P (Some Y) = Inr (map int idx)"
proof -
  let ?rnd = "map (\<lambda>j. if int j \<in> set Y then 4 else if int j \<in> set P then 3 else draws ! j) [0..<n]"
  have len: "length draws = n" using assms(1) by (simp add: rand_ok_def)
  have p: "priorities draws P (Some Y) = Inr ?rnd"
    using len assms(2,3) by (rule priorities_valid)
  have "k \<le> int (length ?rnd)" using assms(6) by simp
  from topk_is_topk[OF assms(5) this] obtain idx
    where "topk ?rnd k = Inr idx" "is_topk ?rnd (nat k) idx" by blast
  then show ?thesis using p assms(4) by (auto simp: candidate_sampler_def)
qed

lemma candidate_sampler_InrD:
  assumes "rand_ok n draws" "valid_ids n P" "valid_ids n Y"
    and "candidate_sampler self draws P (Some Y) = Inr rhs_index"
  shows "\<exists>k idx. rhs_sample_size self = Some k \<and> 0 \<le> k \<and> k \<le> int n \<and> rhs_index = map int idx \<and>
     is_topk (map (\<lambda>j. if int j \<in> set Y then 4 else if int j \<in> set P then 3 else draws ! j) [0..<n]) (nat k) idx"
proof -
  let ?rnd = "map (\<lambda>j. if int j \<in> set Y then 4 else if int j \<in> set P then 3 else draws ! j) [0..<n]"
  have len: "length draws = n" using assms(1) by (simp add: rand_ok_def)
  have p: "priorities draws P (Some Y) = Inr ?rnd"
    using len assms(2,3) by (rule priorities_valid)
  obtain k where k: "rhs_sample_size self = Some k"
    using assms(4) p by (cases "rhs_sample_size self") (simp_all add: candidate_sampler_def)
  have t: "bindE (topk ?rnd k) (\<lambda>top. Inr (map int top)) = Inr rhs_index"
    using assms(4) p k by (simp add: candidate_sampler_def)
  have rng: "0 \<le> k \<and> k \<le> int n"
  proof (rule ccontr)
    assume "\<not> (0 \<le> k \<and> k \<le> int n)"
    then have "topk ?rnd k = Inl RuntimeError" by (auto simp: topk_def)
    then show False using t by simp
  qed
  have "k \<le> int (length ?rnd)" using rng by simp
  from topk_is_topk[OF conjunct1[OF rng] this] obtain idx
    where i: "topk ?rnd k = Inr idx" "is_topk ?rnd (nat k) idx" by blast
  have "rhs_index = map int idx" using t i(1) by simp
  then show ?thesis using k rng i(2) by blast
qed

lemma is_topk_as_ids:
  assumes "is_topk rnd k idx" "length rnd = n"
  shows "length (map int idx) = k" "distinct (map int idx)" "valid_ids n (map int idx)"
    "set (map int idx) = int ` set idx"
  using assms by (auto simp: is_topk_def valid_ids_def distinct_map inj_on_def)

subsection \<open>Positions and the helper vector of the remapper\<close>

lemma position_present:
  assumes "x \<in> set xs"
  shows "0 \<le> position xs x" "nat (position xs x) < length xs" "xs ! nat (position xs x) = x"
proof -
  let ?l = "length (takeWhile (\<lambda>y. y \<noteq> x) xs)"
  have lt: "?l < length xs"
  proof (rule ccontr)
    assume "\<not> ?l < length xs"
    then have "?l = length xs" using length_takeWhile_le[of "\<lambda>y. y \<noteq> x" xs] by simp
    then have "takeWhile (\<lambda>y. y \<noteq> x) xs = xs"
      by (metis takeWhile_eq_take take_all order_refl)
    then have "\<forall>y \<in> set xs. y \<noteq> x" by (metis set_takeWhileD)
    then show False using assms by blast
  qed
  show "0 \<le> position xs x" by (simp add: position_def)
  show "nat (position xs x) < length xs" using lt by (simp add: position_def)
  show "xs ! nat (position xs x) = x"
    using nth_length_takeWhile[OF lt] by (simp add: position_def)
qed

lemma position_nth:
  assumes "distinct xs" "p < length xs"
  shows "position xs (xs ! p) = int p"
proof -
  have m: "xs ! p \<in> set xs" using assms(2) by simp
  have "nat (position xs (xs ! p)) = p"
    using position_present(2,3)[OF m] assms by (simp add: nth_eq_iff_index_eq)
  then show ?thesis using position_present(1)[OF m] by simp
qed

lemma fold_put_length:
  "length (fold (\<lambda>(j, v) ys. ys[j := v]) jvs xs) = length xs"
  by (induction jvs arbitrary: xs) (simp_all add: split_def)

lemma fold_put_other:
  "j \<notin> fst ` set jvs \<Longrightarrow> fold (\<lambda>(j, v) ys. ys[j := v]) jvs xs ! j = xs ! j"
  by (induction jvs arbitrary: xs) (auto simp: split_def)

lemma fold_put_hit:
  assumes "length vs = length js" "distinct js" "p < length js" "js ! p < length xs"
  shows "fold (\<lambda>(j, v) ys. ys[j := v]) (zip js vs) xs ! (js ! p) = vs ! p"
  using assms
proof (induction js vs arbitrary: xs p rule: list_induct2')
  case (4 j js v vs)
  show ?case
  proof (cases p)
    case 0
    have "j \<notin> fst ` set (zip js vs)" using 4(3) by (auto dest: set_zip_leftD)
    then have "fold (\<lambda>(j, v) ys. ys[j := v]) (zip js vs) (xs[j := v]) ! j = xs[j := v] ! j"
      by (rule fold_put_other)
    then show ?thesis using 0 4(5) by simp
  next
    case (Suc q)
    have "fold (\<lambda>(j, v) ys. ys[j := v]) (zip js vs) (xs[j := v]) ! (js ! q) = vs ! q"
      using 4 Suc by (intro 4(1)) simp_all
    then show ?thesis using Suc by simp
  qed
qed simp_all

lemma filter_by_mask:
  "map fst (filter snd (zip (map g xs) (map h xs))) = map g (filter h xs)"
  by (induction xs) simp_all

lemma assoc_after_put:
  assumes d: "distinct index" and vi: "\<forall>i \<in> set index. 0 \<le> i \<and> i \<le> m"
    and len: "length assoc0 = nat (m + 1)"
  shows "\<exists>assoc. index_put assoc0 index (map int [0..<length index]) = Inr assoc \<and>
           length assoc = nat (m + 1) \<and>
           (\<forall>s. 0 \<le> s \<and> s \<le> m \<longrightarrow>
              assoc ! nat s = (if s \<in> set index then position index s else assoc0 ! nat s))"
proof -
  let ?js = "map nat index"
  let ?vs = "map int [0..<length index]"
  let ?A = "fold (\<lambda>(j, v) ys. ys[j := v]) (zip ?js ?vs) assoc0"
  have w: "wrap_all (length assoc0) index = Inr ?js"
    using vi len by (intro wrap_all_valid) auto
  have put: "index_put assoc0 index ?vs = Inr ?A"
    using w by (simp add: index_put_def)
  have lenA: "length ?A = nat (m + 1)" using len by (simp add: fold_put_length)
  have inj: "inj_on nat (set index)"
    using vi by (intro inj_onI) (metis nat_eq_iff2 int_nat_eq)
  have djs: "distinct ?js" using d inj by (simp add: distinct_map)
  have nthA: "\<forall>s. 0 \<le> s \<and> s \<le> m \<longrightarrow>
      ?A ! nat s = (if s \<in> set index then position index s else assoc0 ! nat s)"
  proof (intro allI impI)
    fix s assume s: "0 \<le> s \<and> s \<le> m"
    show "?A ! nat s = (if s \<in> set index then position index s else assoc0 ! nat s)"
    proof (cases "s \<in> set index")
      case True
      let ?p = "nat (position index s)"
      have p: "?p < length index" "index ! ?p = s" "0 \<le> position index s"
        using position_present[OF True] by simp_all
      have jp: "?js ! ?p = nat s" using p by simp
      have "?A ! (?js ! ?p) = ?vs ! ?p"
        using djs p(1) s len by (intro fold_put_hit) (simp_all add: jp)
      then have "?A ! nat s = int ?p" using jp p(1) by simp
      then show ?thesis using True p(3) by simp
    next
      case False
      have "nat s \<notin> set ?js"
      proof
        assume "nat s \<in> set ?js"
        then obtain i where i: "i \<in> set index" "nat s = nat i" by auto
        then have "0 \<le> i" using vi by simp
        then have "s = i" using i(2) s by linarith
        then show False using False i(1) by simp
      qed
      then have "nat s \<notin> fst ` set (zip ?js ?vs)" by (auto dest: set_zip_leftD)
      then have "?A ! nat s = assoc0 ! nat s" by (rule fold_put_other)
      then show ?thesis using False by simp
    qed
  qed
  show ?thesis using put lenA nthA by blast
qed

lemma map_index_closed_masked:
  assumes d: "distinct index" and vi: "\<forall>i \<in> set index. 0 \<le> i \<and> i \<le> m"
    and vs: "\<forall>s \<in> set src. 0 \<le> s \<and> s \<le> m" and m0: "0 \<le> m"
  shows "map_index junk src index (Some m) False
       = Inr (map (position index) (filter (\<lambda>s. s \<in> set index) src),
              Some (map (\<lambda>s. s \<in> set index) src))"
proof -
  let ?a0 = "replicate (nat (m + 1)) (- 1 :: int)"
  let ?g = "\<lambda>s. if s \<in> set index then position index s else - 1"
  have "length ?a0 = nat (m + 1)" by simp
  from assoc_after_put[OF d vi this] obtain assoc where
    put: "index_put ?a0 index (map int [0..<length index]) = Inr assoc"
    and la: "length assoc = nat (m + 1)"
    and na: "\<forall>s. 0 \<le> s \<and> s \<le> m \<longrightarrow>
              assoc ! nat s = (if s \<in> set index then position index s else ?a0 ! nat s)"
    by blast
  have sel: "index_select assoc src = Inr (map (\<lambda>s. assoc ! nat s) src)"
    using vs la by (intro index_select_valid) auto
  have "map (\<lambda>s. assoc ! nat s) src = map ?g src"
  proof (rule map_cong[OF refl])
    fix s assume "s \<in> set src"
    then have s: "0 \<le> s \<and> s \<le> m" using vs by simp
    then have "nat s < nat (m + 1)" by simp
    then show "assoc ! nat s = ?g s" using na s by simp
  qed
  then have out: "index_select assoc src = Inr (map ?g src)" using sel by simp
  have msk: "map (\<lambda>v. v \<noteq> - 1) (map ?g src) = map (\<lambda>s. s \<in> set index) src"
  proof -
    have "\<And>s. (?g s \<noteq> - 1) = (s \<in> set index)"
    proof -
      fix s
      show "(?g s \<noteq> - 1) = (s \<in> set index)"
      proof (cases "s \<in> set index")
        case True
        then have "0 \<le> position index s" by (rule position_present(1))
        then show ?thesis using True by simp
      next
        case False
        then show ?thesis by simp
      qed
    qed
    then show ?thesis by (simp add: comp_def)
  qed
  have kept: "mask_select (map ?g src) (map (\<lambda>s. s \<in> set index) src)
      = Inr (map (position index) (filter (\<lambda>s. s \<in> set index) src))"
  proof -
    have "map ?g (filter (\<lambda>s. s \<in> set index) src) = map (position index) (filter (\<lambda>s. s \<in> set index) src)"
      by (rule map_cong) simp_all
    then show ?thesis by (simp add: mask_select_def filter_by_mask)
  qed
  show ?thesis
    unfolding map_index_def using m0 put out
    by (simp add: msk kept del: map_map)
qed

lemma map_index_closed_inclusive:
  assumes d: "distinct index" and vi: "\<forall>i \<in> set index. 0 \<le> i \<and> i \<le> m"
    and vs: "\<forall>s \<in> set src. 0 \<le> s \<and> s \<le> m" and m0: "0 \<le> m"
  shows "map_index junk src index (Some m) True
       = Inr (map (\<lambda>s. if s \<in> set index then position index s else junk (nat s)) src, None)"
proof -
  let ?a0 = "map junk [0..<nat (m + 1)]"
  let ?g = "\<lambda>s. if s \<in> set index then position index s else junk (nat s)"
  have "length ?a0 = nat (m + 1)" by simp
  from assoc_after_put[OF d vi this] obtain assoc where
    put: "index_put ?a0 index (map int [0..<length index]) = Inr assoc"
    and la: "length assoc = nat (m + 1)"
    and na: "\<forall>s. 0 \<le> s \<and> s \<le> m \<longrightarrow>
              assoc ! nat s = (if s \<in> set index then position index s else ?a0 ! nat s)"
    by blast
  have sel: "index_select assoc src = Inr (map (\<lambda>s. assoc ! nat s) src)"
    using vs la by (intro index_select_valid) auto
  have "map (\<lambda>s. assoc ! nat s) src = map ?g src"
  proof (rule map_cong[OF refl])
    fix s assume "s \<in> set src"
    then have s: "0 \<le> s \<and> s \<le> m" using vs by simp
    then have "nat s < nat (m + 1)" by simp
    then show "assoc ! nat s = ?g s" using na s by simp
  qed
  then have out: "index_select assoc src = Inr (map ?g src)" using sel by simp
  show ?thesis
    unfolding map_index_def using m0 put out by simp
qed

lemma map_index_no_max:
  assumes "src \<noteq> []" "index \<noteq> []"
  shows "map_index junk src index None incl
       = map_index junk src index (Some (max (Max (set src)) (Max (set index)))) incl"
  using assms by (simp add: map_index_def tensor_max_def)

lemma map_index_empty_src:
  "map_index junk [] index None incl = Inl RuntimeError"
  by (simp add: map_index_def tensor_max_def)

subsection \<open>The stages of sample_step\<close>

lemma bindE_eq_Inr: "bindE m f = Inr y \<longleftrightarrow> (\<exists>x. m = Inr x \<and> f x = Inr y)"
  by (cases m) simp_all

lemma candidate_sampler_stages:
  assumes "candidate_sampler self draws P (Some Y) = Inr rhs_index"
  shows "\<exists>r1 rnd k top. index_fill draws P 3 = Inr r1 \<and> index_fill r1 Y 4 = Inr rnd \<and>
           rhs_sample_size self = Some k \<and> topk rnd k = Inr top \<and> rhs_index = map int top"
proof -
  from assms obtain rnd where p: "priorities draws P (Some Y) = Inr rnd"
    and a: "bindE (case rhs_sample_size self of None \<Rightarrow> Inl TypeError | Some k \<Rightarrow> Inr k)
              (\<lambda>k. bindE (topk rnd k) (\<lambda>top. Inr (map int top))) = Inr rhs_index"
    unfolding candidate_sampler_def bindE_eq_Inr by blast
  from p obtain r1 where r1: "index_fill draws P 3 = Inr r1" and r2: "index_fill r1 Y 4 = Inr rnd"
    unfolding priorities_def bindE_eq_Inr by auto
  from a obtain k where k: "rhs_sample_size self = Some k"
    and b: "bindE (topk rnd k) (\<lambda>top. Inr (map int top)) = Inr rhs_index"
    unfolding bindE_eq_Inr by (cases "rhs_sample_size self") auto
  from b obtain top where "topk rnd k = Inr top" "rhs_index = map int top"
    unfolding bindE_eq_Inr by auto
  then show ?thesis using r1 r2 k by blast
qed

lemma sample_step_after_sampler:
  assumes cs: "candidate_sampler self draws P (Some Y) = Inr rhs_index"
    and k: "rhs_sample_size self = Some k"
  shows "sample_step self draws junk P lb ge yb (Some Y) =
     bindE (map_index (junk 0) Y rhs_index (Some (int (num_rhs_nodes self)))
              (int (length Y) \<le> k)) (\<lambda>(y', msk).
     bindE (if int (length Y) \<le> k then Inr yb else mask_filter yb msk) (\<lambda>yb'.
     bindE (map_index (junk 1) P rhs_index None
              (int (length y') + int (length P) \<le> k)) (\<lambda>(P', msk).
     bindE (if \<not> (int (length y') + int (length P) \<le> k)
            then bindE (mask_filter lb msk) (\<lambda>b. bindE (mask_filter ge msk) (\<lambda>e. Inr (b, e)))
            else Inr (lb, ge)) (\<lambda>(lb', ge').
     Inr (P', rhs_embedding self rhs_index, lb', ge', yb', y')))))"
proof -
  from candidate_sampler_stages[OF cs] k obtain r1 rnd top where
    s: "index_fill draws P 3 = Inr r1" "index_fill r1 Y 4 = Inr rnd"
       "topk rnd k = Inr top" "rhs_index = map int top"
    by auto
  show ?thesis
    unfolding sample_step_def using s k by (simp add: Let_def)
qed

lemma sampled_ids:
  assumes "rand_ok n draws" "valid_ids n P" "valid_ids n Y"
    and "candidate_sampler self draws P (Some Y) = Inr rhs_index"
  shows "distinct rhs_index" "valid_ids n rhs_index"
    "\<exists>k. rhs_sample_size self = Some k \<and> 0 \<le> k \<and> k \<le> int n \<and> int (length rhs_index) = k"
proof -
  let ?rnd = "map (\<lambda>j. if int j \<in> set Y then 4 else if int j \<in> set P then 3 else draws ! j) [0..<n]"
  from candidate_sampler_InrD[OF assms] obtain k idx where
    k: "rhs_sample_size self = Some k" "0 \<le> k" "k \<le> int n" and r: "rhs_index = map int idx"
    and tk: "is_topk ?rnd (nat k) idx" by blast
  have len: "length ?rnd = n" by simp
  note ids = is_topk_as_ids[OF tk len]
  show "distinct rhs_index" using ids(2) r by simp
  show "valid_ids n rhs_index" using ids(3) r by simp
  have "int (length rhs_index) = k" using ids(1) r k(2) by simp
  then show "\<exists>k. rhs_sample_size self = Some k \<and> 0 \<le> k \<and> k \<le> int n \<and> int (length rhs_index) = k"
    using k by blast
qed

lemma remap_closed_max:
  assumes d: "distinct index" and vi: "valid_ids n index" and vs: "valid_ids n src"
  shows "map_index junk src index (Some (int n)) False
       = Inr (map (position index) (filter (\<lambda>s. s \<in> set index) src),
              Some (map (\<lambda>s. s \<in> set index) src))"
    and "map_index junk src index (Some (int n)) True
       = Inr (map (\<lambda>s. if s \<in> set index then position index s else junk (nat s)) src, None)"
proof -
  have a: "\<forall>i \<in> set index. 0 \<le> i \<and> i \<le> int n" using vi by (auto simp: valid_ids_def)
  have b: "\<forall>s \<in> set src. 0 \<le> s \<and> s \<le> int n" using vs by (auto simp: valid_ids_def)
  have c: "0 \<le> int n" by simp
  show "map_index junk src index (Some (int n)) False
       = Inr (map (position index) (filter (\<lambda>s. s \<in> set index) src),
              Some (map (\<lambda>s. s \<in> set index) src))"
    using d a b c by (rule map_index_closed_masked)
  show "map_index junk src index (Some (int n)) True
       = Inr (map (\<lambda>s. if s \<in> set index then position index s else junk (nat s)) src, None)"
    using d a b c by (rule map_index_closed_inclusive)
qed

lemma remap_closed_no_max:
  assumes d: "distinct index" and vi: "valid_ids n index" and vs: "valid_ids n src"
    and ne: "src \<noteq> []" "index \<noteq> []"
  shows "map_index junk src index None False
       = Inr (map (position index) (filter (\<lambda>s. s \<in> set index) src),
              Some (map (\<lambda>s. s \<in> set index) src))"
    and "map_index junk src index None True
       = Inr (map (\<lambda>s. if s \<in> set index then position index s else junk (nat s)) src, None)"
proof -
  let ?m = "max (Max (set src)) (Max (set index))"
  have a: "\<forall>i \<in> set index. 0 \<le> i \<and> i \<le> ?m"
    using vi by (auto simp: valid_ids_def intro: max.coboundedI2)
  have b: "\<forall>s \<in> set src. 0 \<le> s \<and> s \<le> ?m"
    using vs by (auto simp: valid_ids_def intro: max.coboundedI1)
  obtain s where "s \<in> set src" using ne(1) by (cases src) auto
  then have c: "0 \<le> ?m" using b by force
  show "map_index junk src index None False
       = Inr (map (position index) (filter (\<lambda>s. s \<in> set index) src),
              Some (map (\<lambda>s. s \<in> set index) src))"
    unfolding map_index_no_max[OF ne] using d a b c by (rule map_index_closed_masked)
  show "map_index junk src index None True
       = Inr (map (\<lambda>s. if s \<in> set index then position index s else junk (nat s)) src, None)"
    unfolding map_index_no_max[OF ne] using d a b c by (rule map_index_closed_inclusive)
qed

lemma map_all_present:
  assumes "set src \<subseteq> set index"
  shows "filter (\<lambda>s. s \<in> set index) src = src"
    "map (\<lambda>s. s \<in> set index) src = replicate (length src) True"
    "map (\<lambda>s. if s \<in> set index then position index s else junk (nat s)) src
       = map (position index) src"
proof -
  show "filter (\<lambda>s. s \<in> set index) src = src" using assms by (intro filter_True) blast
  have "map (\<lambda>s. s \<in> set index) src = map (\<lambda>s. True) src"
    using assms by (intro map_cong) auto
  then show "map (\<lambda>s. s \<in> set index) src = replicate (length src) True"
    by (simp add: map_replicate_const)
  show "map (\<lambda>s. if s \<in> set index then position index s else junk (nat s)) src
       = map (position index) src"
    using assms by (intro map_cong) auto
qed

subsection \<open>Masks and alignment\<close>

lemma aligned_pairs:
  "length bs = length ys \<Longrightarrow>
   zip (map fst (filter snd (zip bs (map h ys)))) (map g (filter h ys))
     = map (\<lambda>(b, y). (b, g y)) (filter (\<lambda>(b, y). h y) (zip bs ys))"
  by (induction bs ys rule: list_induct2) simp_all

lemma aligned_triples:
  "length bs = length es \<Longrightarrow> length es = length ps \<Longrightarrow>
   zip (map fst (filter snd (zip bs (map h ps))))
       (zip (map fst (filter snd (zip es (map h ps)))) (map g (filter h ps)))
     = map (\<lambda>(b, e, p). (b, e, g p)) (filter (\<lambda>(b, e, p). h p) (zip bs (zip es ps)))"
  by (induction bs es ps rule: list_induct3) simp_all

lemma masked_length:
  "length bs = length ys \<Longrightarrow>
   length (map fst (filter snd (zip bs (map h ys)))) = length (filter h ys)"
  by (induction bs ys rule: list_induct2) simp_all

lemma masked_all_true:
  "length bs = length ys \<Longrightarrow> set ys \<subseteq> Collect h \<Longrightarrow>
   map fst (filter snd (zip bs (map h ys))) = bs"
  by (induction bs ys rule: list_induct2) simp_all

subsection \<open>Writes into a matrix\<close>

lemma put2_length:
  "length (fold (\<lambda>(i, j, v) N. N[i := (N ! i)[j := v]]) ts N) = length N"
  by (induction ts arbitrary: N) (simp_all add: split_def)

lemma put2_row_length:
  "i < length N \<Longrightarrow>
   length (fold (\<lambda>(i, j, v) N. N[i := (N ! i)[j := v]]) ts N ! i) = length (N ! i)"
proof (induction ts arbitrary: N)
  case Nil
  then show ?case by simp
next
  case (Cons t ts)
  obtain a b v where t: "t = (a, b, v)" by (cases t) auto
  have "length (fold (\<lambda>(i, j, v) N. N[i := (N ! i)[j := v]]) ts (N[a := (N ! a)[b := v]]) ! i)
      = length (N[a := (N ! a)[b := v]] ! i)"
    using Cons.prems by (intro Cons.IH) simp
  also have "\<dots> = length (N ! i)" using Cons.prems by (cases "i = a") simp_all
  finally show ?case using t by simp
qed

lemma put2_other:
  "(i, j) \<notin> (\<lambda>(i, j, v). (i, j)) ` set ts \<Longrightarrow> i < length N \<Longrightarrow>
   fold (\<lambda>(i, j, v) N. N[i := (N ! i)[j := v]]) ts N ! i ! j = N ! i ! j"
proof (induction ts arbitrary: N)
  case Nil
  then show ?case by simp
next
  case (Cons t ts)
  obtain a b v where t: "t = (a, b, v)" by (cases t) auto
  have ne: "(i, j) \<noteq> (a, b)" using Cons.prems(1) t by auto
  have "fold (\<lambda>(i, j, v) N. N[i := (N ! i)[j := v]]) ts (N[a := (N ! a)[b := v]]) ! i ! j
      = N[a := (N ! a)[b := v]] ! i ! j"
    using Cons.prems by (intro Cons.IH) auto
  also have "\<dots> = N ! i ! j"
    using Cons.prems(2) ne by (cases "i = a") (simp_all add: nth_list_update)
  finally show ?case using t by simp
qed

lemma put2_hit:
  "distinct (map (\<lambda>(i, j, v). (i, j)) ts) \<Longrightarrow> k < length ts \<Longrightarrow> ts ! k = (i, j, v) \<Longrightarrow>
   i < length N \<Longrightarrow> j < length (N ! i) \<Longrightarrow>
   fold (\<lambda>(i, j, v) N. N[i := (N ! i)[j := v]]) ts N ! i ! j = v"
proof (induction ts arbitrary: N k)
  case Nil
  then show ?case by simp
next
  case (Cons t ts)
  obtain a b w where t: "t = (a, b, w)" by (cases t) auto
  let ?N = "N[a := (N ! a)[b := w]]"
  show ?case
  proof (cases k)
    case 0
    then have e: "a = i" "b = j" "w = v" using Cons.prems(3) t by simp_all
    have "(i, j) \<notin> (\<lambda>(i, j, v). (i, j)) ` set ts" using Cons.prems(1) t e by simp
    then have "fold (\<lambda>(i, j, v) N. N[i := (N ! i)[j := v]]) ts ?N ! i ! j = ?N ! i ! j"
      using Cons.prems(4) by (intro put2_other) simp_all
    then show ?thesis using t e Cons.prems(4,5) by simp
  next
    case (Suc q)
    have "fold (\<lambda>(i, j, v) N. N[i := (N ! i)[j := v]]) ts ?N ! i ! j = v"
    proof (rule Cons.IH[of q])
      show "distinct (map (\<lambda>(i, j, v). (i, j)) ts)" using Cons.prems(1) by simp
      show "q < length ts" using Cons.prems(2) Suc by simp
      show "ts ! q = (i, j, v)" using Cons.prems(3) Suc by simp
      show "i < length ?N" using Cons.prems(4) by simp
      show "j < length (?N ! i)" using Cons.prems(4,5) by (cases "i = a") simp_all
    qed
    then show ?thesis using t by simp
  qed
qed

lemma index_put2_valid:
  assumes lr: "length rows = length cols" and lv: "length vals = length rows"
    and vr: "valid_ids (length M) rows" and vc: "valid_ids ncols cols"
    and rl: "\<forall>row \<in> set M. length row = ncols"
    and d: "distinct (zip rows cols)"
  shows "\<exists>N. index_put2 ncols M rows cols vals = Inr N \<and> length N = length M \<and>
     (\<forall>row \<in> set N. length row = ncols) \<and>
     (\<forall>k < length rows. N ! nat (rows ! k) ! nat (cols ! k) = vals ! k) \<and>
     (\<forall>i < length M. \<forall>j < ncols. (int i, int j) \<notin> set (zip rows cols) \<longrightarrow> N ! i ! j = M ! i ! j)"
proof -
  let ?is = "map nat rows" and ?js = "map nat cols"
  let ?ts = "zip ?is (zip ?js vals)"
  let ?N = "fold (\<lambda>(i, j, v) N. N[i := (N ! i)[j := v]]) ?ts M"
  have wr: "wrap_all (length M) rows = Inr ?is"
    using vr by (intro wrap_all_valid) (simp add: valid_ids_def)
  have wc: "wrap_all ncols cols = Inr ?js"
    using vc by (intro wrap_all_valid) (simp add: valid_ids_def)
  have run: "index_put2 ncols M rows cols vals = Inr ?N"
    using lr lv wr wc by (simp add: index_put2_def)
  have lN: "length ?N = length M" by (rule put2_length)
  have rowlen: "\<forall>row \<in> set ?N. length row = ncols"
  proof
    fix row assume "row \<in> set ?N"
    then obtain i where i: "i < length ?N" "row = ?N ! i" by (auto simp: in_set_conv_nth)
    then have iM: "i < length M" using lN by simp
    then have "length (?N ! i) = length (M ! i)" by (rule put2_row_length)
    then show "length row = ncols" using i(2) iM rl by simp
  qed
  have lts: "length ?ts = length rows" using lr lv by simp
  have pairs: "map (\<lambda>(i, j, v). (i, j)) ?ts = zip ?is ?js"
    using lr lv by (intro nth_equalityI) simp_all
  have nn: "\<And>r c. (r, c) \<in> set (zip rows cols) \<Longrightarrow> 0 \<le> r \<and> 0 \<le> c"
    using vr vc by (auto simp: valid_ids_def dest: set_zip_leftD set_zip_rightD)
  have zmap: "zip ?is ?js = map (\<lambda>(r, c). (nat r, nat c)) (zip rows cols)"
    by (simp add: zip_map_map)
  have inj: "inj_on (\<lambda>(r, c). (nat r, nat c)) (set (zip rows cols))"
  proof (rule inj_onI)
    fix x y assume x: "x \<in> set (zip rows cols)" and y: "y \<in> set (zip rows cols)"
      and e: "(\<lambda>(r, c). (nat r, nat c)) x = (\<lambda>(r, c). (nat r, nat c)) y"
    obtain r c where xx: "x = (r, c)" by (cases x)
    obtain r' c' where yy: "y = (r', c')" by (cases y)
    have "0 \<le> r \<and> 0 \<le> c" "0 \<le> r' \<and> 0 \<le> c'" using nn x y xx yy by blast+
    moreover have "nat r = nat r'" "nat c = nat c'" using e xx yy by simp_all
    ultimately have "r = r'" "c = c'" by linarith+
    then show "x = y" using xx yy by simp
  qed
  have dts: "distinct (map (\<lambda>(i, j, v). (i, j)) ?ts)"
    unfolding pairs zmap using d inj by (simp add: distinct_map)
  have hit: "\<forall>k < length rows. ?N ! nat (rows ! k) ! nat (cols ! k) = vals ! k"
  proof (intro allI impI)
    fix k assume k: "k < length rows"
    have tk: "?ts ! k = (nat (rows ! k), nat (cols ! k), vals ! k)"
      using k lr lv by simp
    have rk: "rows ! k \<in> set rows" using k by simp
    have ck: "cols ! k \<in> set cols" using k lr by simp
    have i: "nat (rows ! k) < length M" using vr rk by (auto simp: valid_ids_def)
    have "nat (cols ! k) < ncols" using vc ck by (auto simp: valid_ids_def)
    then have j: "nat (cols ! k) < length (M ! nat (rows ! k))" using rl i by simp
    show "?N ! nat (rows ! k) ! nat (cols ! k) = vals ! k"
      using dts _ tk i j by (rule put2_hit) (use k lr lv in simp)
  qed
  have other: "\<forall>i < length M. \<forall>j < ncols. (int i, int j) \<notin> set (zip rows cols) \<longrightarrow>
      ?N ! i ! j = M ! i ! j"
  proof (intro allI impI)
    fix i j assume i: "i < length M" and j: "j < ncols"
      and n: "(int i, int j) \<notin> set (zip rows cols)"
    have "(i, j) \<notin> (\<lambda>(i, j, v). (i, j)) ` set ?ts"
    proof
      assume "(i, j) \<in> (\<lambda>(i, j, v). (i, j)) ` set ?ts"
      then have "(i, j) \<in> set (map (\<lambda>(i, j, v). (i, j)) ?ts)" by simp
      then have "(i, j) \<in> set (zip ?is ?js)" unfolding pairs .
      then obtain r c where rc: "(r, c) \<in> set (zip rows cols)" "i = nat r" "j = nat c"
        unfolding zmap by auto
      then have "int i = r" "int j = c" using nn by auto
      then show False using n rc(1) by simp
    qed
    then show "?N ! i ! j = M ! i ! j" using i by (rule put2_other)
  qed
  show ?thesis using run lN rowlen hit other by blast
qed

subsection \<open>Indices out of range\<close>

lemma wrap_index_error: "wrap_index n a = Inl e \<Longrightarrow> e = IndexError"
  by (simp add: wrap_index_def split: if_splits)

lemma wrap_all_error: "wrap_all n idx = Inl e \<Longrightarrow> e = IndexError"
  by (induction idx arbitrary: e)
     (auto simp: wrap_index_def bindE_def split: if_splits sum.splits)

lemma wrap_all_out_of_range:
  "\<exists>i \<in> set idx. i < - int n \<or> int n \<le> i \<Longrightarrow> wrap_all n idx = Inl IndexError"
proof (induction idx)
  case Nil
  then show ?case by simp
next
  case (Cons a idx)
  show ?case
  proof (cases "a < - int n \<or> int n \<le> a")
    case True
    then have "wrap_index n a = Inl IndexError" by (auto simp: wrap_index_def)
    then show ?thesis by simp
  next
    case False
    then have "\<exists>i \<in> set idx. i < - int n \<or> int n \<le> i" using Cons.prems by auto
    then have "wrap_all n idx = Inl IndexError" by (rule Cons.IH)
    then show ?thesis by (cases "wrap_index n a") (simp_all add: wrap_index_error)
  qed
qed

lemma wrap_all_mod:
  "\<forall>i \<in> set idx. - int n \<le> i \<and> i < int n \<Longrightarrow>
   wrap_all n idx = wrap_all n (map (\<lambda>i. i mod int n) idx)"
proof (induction idx)
  case Nil
  then show ?case by simp
next
  case (Cons a idx)
  have a: "- int n \<le> a" "a < int n" using Cons.prems by simp_all
  have "wrap_index n a = wrap_index n (a mod int n)"
  proof (cases "0 \<le> a")
    case True
    then show ?thesis using a by simp
  next
    case False
    have r: "0 \<le> a + int n" "a + int n < int n" using a False by simp_all
    have "a mod int n = (a + int n) mod int n" by simp
    also have "\<dots> = a + int n" using r by (rule mod_pos_pos_trivial)
    finally have m: "a mod int n = a + int n" .
    show ?thesis using False a r unfolding m by (simp add: wrap_index_def)
  qed
  moreover have "wrap_all n idx = wrap_all n (map (\<lambda>i. i mod int n) idx)"
    using Cons.prems by (intro Cons.IH) simp
  ultimately show ?case by simp
qed

lemma index_fill_out_of_range:
  "\<exists>i \<in> set idx. i < - int (length xs) \<or> int (length xs) \<le> i \<Longrightarrow>
   index_fill xs idx v = Inl IndexError"
  by (simp add: index_fill_def wrap_all_out_of_range)

lemma index_fill_cases:
  "index_fill xs idx v = Inl IndexError \<or> (\<exists>ys. index_fill xs idx v = Inr ys \<and> length ys = length xs)"
proof (cases "wrap_all (length xs) idx")
  case (Inl e)
  then show ?thesis using wrap_all_error[OF Inl] by (simp add: index_fill_def)
next
  case (Inr js)
  then show ?thesis by (simp add: index_fill_def fold_fill_length)
qed

lemma index_fill_mod:
  "\<forall>i \<in> set idx. - int (length xs) \<le> i \<and> i < int (length xs) \<Longrightarrow>
   index_fill xs idx v = index_fill xs (map (\<lambda>i. i mod int (length xs)) idx) v"
  by (simp add: index_fill_def wrap_all_mod[symmetric])

lemma priorities_out_of_range:
  assumes "\<exists>i \<in> set P \<union> set Y. i < - int (length draws) \<or> int (length draws) \<le> i"
  shows "priorities draws P (Some Y) = Inl IndexError"
proof -
  from index_fill_cases[of draws P 3] show ?thesis
  proof
    assume "index_fill draws P 3 = Inl IndexError"
    then show ?thesis by (simp add: priorities_def)
  next
    assume "\<exists>ys. index_fill draws P 3 = Inr ys \<and> length ys = length draws"
    then obtain r1 where r1: "index_fill draws P 3 = Inr r1" "length r1 = length draws" by blast
    have "\<not> (\<exists>i \<in> set P. i < - int (length draws) \<or> int (length draws) \<le> i)"
      using index_fill_out_of_range[of P draws 3] r1(1) by auto
    then have "\<exists>i \<in> set Y. i < - int (length r1) \<or> int (length r1) \<le> i"
      using assms r1(2) by auto
    then have "index_fill r1 Y 4 = Inl IndexError" by (rule index_fill_out_of_range)
    then show ?thesis using r1(1) by (simp add: priorities_def)
  qed
qed

subsection \<open>Errors other than the assertion\<close>

lemma bindE_eq_Inl: "bindE m f = Inl e \<longleftrightarrow> m = Inl e \<or> (\<exists>x. m = Inr x \<and> f x = Inl e)"
  by (cases m) simp_all

lemma index_fill_no_assert: "index_fill xs idx v \<noteq> Inl AssertionError"
  using index_fill_cases[of xs idx v] by auto

lemma wrap_all_no_assert: "wrap_all n idx \<noteq> Inl AssertionError"
  using wrap_all_error[of n idx AssertionError] by auto

lemma index_select_no_assert: "index_select xs idx \<noteq> Inl AssertionError"
  by (simp add: index_select_def bindE_eq_Inl wrap_all_no_assert)

lemma index_put_no_assert: "index_put xs idx vals \<noteq> Inl AssertionError"
  by (simp add: index_put_def bindE_eq_Inl wrap_all_no_assert)

lemma mask_select_no_assert: "mask_select xs msk \<noteq> Inl AssertionError"
  by (simp add: mask_select_def)

lemma mask_filter_no_assert: "mask_filter xs msk \<noteq> Inl AssertionError"
  by (cases msk) (simp_all add: mask_filter_def mask_select_no_assert)

lemma topk_no_assert: "topk vals k \<noteq> Inl AssertionError"
  by (simp add: topk_def)

lemma tensor_max_no_assert: "tensor_max xs \<noteq> Inl AssertionError"
  by (simp add: tensor_max_def)

lemma map_index_no_assert: "map_index junk src index mx incl \<noteq> Inl AssertionError"
  by (cases mx)
     (simp_all add: map_index_def bindE_eq_Inl tensor_max_no_assert index_put_no_assert
        index_select_no_assert mask_select_no_assert)

lemma index_put2_no_assert: "index_put2 n M rows cols vals \<noteq> Inl AssertionError"
  by (simp add: index_put2_def bindE_eq_Inl wrap_all_no_assert)

lemma matmul_t_no_assert: "matmul_t A R \<noteq> Inl AssertionError"
  by (simp add: matmul_t_def)

lemma rowwise_dot_no_assert: "rowwise_dot X Y \<noteq> Inl AssertionError"
  by (simp add: rowwise_dot_def)

lemma construct_logits_no_assert:
  "construct_logits self A L G R b c \<noteq> Inl AssertionError"
  by (simp add: construct_logits_def Let_def bindE_eq_Inl matmul_t_no_assert
        index_select_no_assert rowwise_dot_no_assert index_put2_no_assert)

lemma sample_step_no_assert:
  "sample_step self draws junk P lb ge yb (Some Y) \<noteq> Inl AssertionError"
  by (cases "rhs_sample_size self")
     (simp_all add: sample_step_def Let_def bindE_eq_Inl split_def index_fill_no_assert
        topk_no_assert map_index_no_assert mask_filter_no_assert)

lemma wrap_all_in_range:
  "\<forall>i \<in> set idx. - int n \<le> i \<and> i < int n \<Longrightarrow> \<exists>js. wrap_all n idx = Inr js"
proof (induction idx)
  case Nil
  then show ?case by simp
next
  case (Cons a idx)
  have "\<exists>j. wrap_index n a = Inr j" using Cons.prems by (simp add: wrap_index_def)
  moreover have "\<exists>js. wrap_all n idx = Inr js" using Cons.prems by (intro Cons.IH) simp
  ultimately show ?case by auto
qed

subsection \<open>Uninitialised buffers\<close>

lemma sample_step_sampler_fails:
  assumes "candidate_sampler self draws P (Some Y) = Inl e"
  shows "sample_step self draws junk P lb ge yb (Some Y) = Inl e"
proof (cases "index_fill draws P 3")
  case (Inl a)
  then show ?thesis
    using assms by (simp add: candidate_sampler_def priorities_def sample_step_def)
next
  case r1: (Inr r1)
  show ?thesis
  proof (cases "index_fill r1 Y 4")
    case (Inl a)
    then show ?thesis
      using assms r1 by (simp add: candidate_sampler_def priorities_def sample_step_def)
  next
    case rnd: (Inr rnd)
    show ?thesis
    proof (cases "rhs_sample_size self")
      case None
      then show ?thesis
        using assms r1 rnd by (simp add: candidate_sampler_def priorities_def sample_step_def)
    next
      case (Some k)
      show ?thesis
      proof (cases "topk rnd k")
        case (Inl a)
        then show ?thesis
          using assms r1 rnd Some
          by (simp add: candidate_sampler_def priorities_def sample_step_def)
      next
        case (Inr top)
        then show ?thesis
          using assms r1 rnd Some by (simp add: candidate_sampler_def priorities_def)
      qed
    qed
  qed
qed

lemma map_index_empty_index:
  "map_index junk src [] None incl = Inl RuntimeError"
  by (cases "src = []") (simp_all add: map_index_def tensor_max_def)

lemma remap_max_junk_free:
  assumes d: "distinct index" and vi: "valid_ids n index" and vs: "valid_ids n src"
    and tot: "incl \<longrightarrow> set src \<subseteq> set index"
  shows "map_index junk src index (Some (int n)) incl
       = Inr (map (position index) (filter (\<lambda>s. s \<in> set index) src),
              if incl then None else Some (map (\<lambda>s. s \<in> set index) src))"
proof (cases incl)
  case True
  then have sub: "set src \<subseteq> set index" using tot by simp
  show ?thesis
    using True remap_closed_max(2)[OF d vi vs, of junk] map_all_present(1)[OF sub]
      map_all_present(3)[OF sub, of junk]
    by simp
next
  case False
  then show ?thesis using remap_closed_max(1)[OF d vi vs, of junk] by simp
qed

lemma remap_no_max_junk_free:
  assumes d: "distinct index" and vi: "valid_ids n index" and vs: "valid_ids n src"
    and tot: "incl \<longrightarrow> set src \<subseteq> set index"
  shows "map_index junk src index None incl
       = (if src = [] \<or> index = [] then Inl RuntimeError
          else Inr (map (position index) (filter (\<lambda>s. s \<in> set index) src),
                    if incl then None else Some (map (\<lambda>s. s \<in> set index) src)))"
proof (cases "src = [] \<or> index = []")
  case True
  then show ?thesis by (auto simp: map_index_empty_src map_index_empty_index)
next
  case False
  then have ne: "src \<noteq> []" "index \<noteq> []" by simp_all
  show ?thesis
  proof (cases incl)
    case True
    then have sub: "set src \<subseteq> set index" using tot by simp
    show ?thesis
      using True ne remap_closed_no_max(2)[OF d vi vs ne, of junk] map_all_present(1)[OF sub]
        map_all_present(3)[OF sub, of junk]
      by simp
  next
    case False
    then show ?thesis using ne remap_closed_no_max(1)[OF d vi vs ne, of junk] by simp
  qed
qed

lemma remaps_junk_free:
  assumes "rand_ok (num_rhs_nodes self) draws"
    and "valid_ids (num_rhs_nodes self) P" and "valid_ids (num_rhs_nodes self) Y"
    and cs: "candidate_sampler self draws P (Some Y) = Inr rhs_index"
    and k: "rhs_sample_size self = Some k"
  shows "map_index j0 Y rhs_index (Some (int (num_rhs_nodes self))) (int (length Y) \<le> k)
       = Inr (map (position rhs_index) (filter (\<lambda>s. s \<in> set rhs_index) Y),
              if int (length Y) \<le> k then None else Some (map (\<lambda>s. s \<in> set rhs_index) Y))"
    and "map_index j1 P rhs_index None
           (int (length (map (position rhs_index) (filter (\<lambda>s. s \<in> set rhs_index) Y)))
              + int (length P) \<le> k)
       = (if P = [] \<or> rhs_index = [] then Inl RuntimeError
          else Inr (map (position rhs_index) (filter (\<lambda>s. s \<in> set rhs_index) P),
                    if int (length (map (position rhs_index) (filter (\<lambda>s. s \<in> set rhs_index) Y)))
                         + int (length P) \<le> k
                    then None else Some (map (\<lambda>s. s \<in> set rhs_index) P)))"
proof -
  let ?n = "num_rhs_nodes self"
  let ?rnd = "map (\<lambda>j. if int j \<in> set Y then 4 else if int j \<in> set P then 3 else draws ! j) [0..<?n]"
  let ?F = "filter (\<lambda>s. s \<in> set rhs_index) Y"
  from candidate_sampler_InrD[OF assms(1-4)] k obtain idx where
    k0: "0 \<le> k" "k \<le> int ?n" and r: "rhs_index = map int idx"
    and tk: "is_topk ?rnd (nat k) idx" by auto
  have len: "length ?rnd = ?n" by simp
  note ids = is_topk_as_ids[OF tk len]
  have sr: "set rhs_index = int ` set idx" using ids(4) r by simp
  note s = sampled_ids[OF assms(1-4)]
  have t1: "int (length Y) \<le> k \<longrightarrow> set Y \<subseteq> set rhs_index"
  proof
    assume g1: "int (length Y) \<le> k"
    have "card (set Y) \<le> length Y" by (rule card_length)
    then have "card (set Y) \<le> nat k" using g1 by linarith
    from forced_topk_required[OF assms(1) assms(3) tk refl this]
    show "set Y \<subseteq> set rhs_index" using sr by simp
  qed
  show "map_index j0 Y rhs_index (Some (int ?n)) (int (length Y) \<le> k)
       = Inr (map (position rhs_index) ?F,
              if int (length Y) \<le> k then None else Some (map (\<lambda>s. s \<in> set rhs_index) Y))"
    using s(1) s(2) assms(3) t1 by (rule remap_max_junk_free)
  let ?g2 = "int (length (map (position rhs_index) ?F)) + int (length P) \<le> k"
  have t2: "?g2 \<longrightarrow> set P \<subseteq> set rhs_index"
  proof
    assume "?g2"
    then have "length ?F + length P \<le> nat k" by simp
    then have "length (filter (\<lambda>y. y \<in> int ` set idx) Y) + length P \<le> nat k"
      using sr by simp
    from forced_topk_priority[OF assms(1) assms(2) tk refl this]
    show "set P \<subseteq> set rhs_index" using sr by simp
  qed
  show "map_index j1 P rhs_index None ?g2
       = (if P = [] \<or> rhs_index = [] then Inl RuntimeError
          else Inr (map (position rhs_index) (filter (\<lambda>s. s \<in> set rhs_index) P),
                    if ?g2 then None else Some (map (\<lambda>s. s \<in> set rhs_index) P)))"
    using s(1) s(2) assms(2) t2 by (rule remap_no_max_junk_free)
qed
section \<open>The CSR neighbour expander: results\<close>

lemma csr_row_length:
  assumes wf: "csr_wf rowptr col" and r: "0 \<le> r" "r + 1 < int (length rowptr)"
  shows "length (csr_row rowptr col r) = nat (degree rowptr r)"
proof -
  have srt: "sorted rowptr" and ne: "rowptr \<noteq> []" and z: "0 \<le> rowptr ! 0"
    and len: "int (length col) = last rowptr"
    using wf by (simp_all add: csr_wf_def)
  have i: "nat r + 1 < length rowptr" using r by linarith
  have i': "nat r < length rowptr" using i by simp
  have "rowptr ! 0 \<le> rowptr ! nat r"
    using srt i' by (intro sorted_nth_mono) simp_all
  then have a: "0 \<le> rowptr ! nat r" using z by simp
  have b: "rowptr ! nat r \<le> rowptr ! (nat r + 1)" using srt i by (simp add: sorted_nth_mono)
  have "rowptr ! (nat r + 1) \<le> rowptr ! (length rowptr - 1)"
    using srt i by (intro sorted_nth_mono) simp_all
  then have c: "rowptr ! (nat r + 1) \<le> int (length col)"
    using len ne by (simp add: last_conv_nth)
  have h: "nat (rowptr ! (nat r + 1)) \<le> length col" using c by linarith
  have l: "nat (rowptr ! nat r) \<le> nat (rowptr ! (nat r + 1))" using a b by linarith
  have d: "nat (degree rowptr r) = nat (rowptr ! (nat r + 1)) - nat (rowptr ! nat r)"
    using a b by (simp add: degree_def nat_diff_distrib)
  have "length (csr_row rowptr col r)
      = min (length col - nat (rowptr ! nat r)) (nat (rowptr ! (nat r + 1)) - nat (rowptr ! nat r))"
    by (simp add: csr_row_def)
  also have "\<dots> = nat (rowptr ! (nat r + 1)) - nat (rowptr ! nat r)"
    using h by (intro min_absorb2 diff_le_mono)
  finally show ?thesis using d by simp
qed

text \<open>
  Claim C3. For a well-formed CSR adjacency (\<open>rowptr\<close> non-empty, non-decreasing and
  starting at a non-negative offset, \<open>col\<close> of length \<open>rowptr[numSources]\<close>) and any
  sequence of valid row ids, \<open>get_rhs_index\<close> returns two arrays of equal length, that
  length being the sum of the out-degrees of the selected rows; the elements carrying batch
  id \<open>i\<close> are exactly \<open>col[rowptr[r]:rowptr[r+1]]\<close> for the \<open>i\<close>-th selected row
  \<open>r\<close>, in stored order, and a row of degree zero contributes no element.
\<close>

theorem get_rhs_index_expands_rows:
  assumes wf: "csr_wf rowptr col" and rows: "valid_rows rowptr src_index"
  shows "\<exists>src_batch dst_index.
     get_rhs_index src_index rowptr col = Inr (src_batch, dst_index) \<and>
     length src_batch = length dst_index \<and>
     int (length dst_index) = (\<Sum>r\<leftarrow>src_index. degree rowptr r) \<and>
     (\<forall>i<length src_index.
        map snd (filter (\<lambda>p. fst p = int i) (zip src_batch dst_index))
          = csr_row rowptr col (src_index ! i) \<and>
        (degree rowptr (src_index ! i) = 0 \<longrightarrow> int i \<notin> set src_batch))"
proof -
  let ?n = "length src_index"
  let ?d = "\<lambda>i. nat (degree rowptr (src_index ! i))"
  let ?R = "\<lambda>i. csr_row rowptr col (src_index ! i)"
  let ?sb = "concat (map (\<lambda>i. replicate (?d i) (int i)) [0..<?n])"
  let ?di = "concat (map ?R [0..<?n])"
  have cf: "get_rhs_index src_index rowptr col = Inr (?sb, ?di)"
    using wf rows by (rule get_rhs_index_closed_form)
  have lenR: "\<forall>i<?n. length (?R i) = ?d i"
  proof (intro allI impI)
    fix i assume "i < ?n"
    then have "src_index ! i \<in> set src_index" by simp
    then have "0 \<le> src_index ! i" "src_index ! i + 1 < int (length rowptr)"
      using rows unfolding valid_rows_def by blast+
    then show "length (?R i) = ?d i" by (rule csr_row_length [OF wf])
  qed
  have dge: "\<And>r. r \<in> set src_index \<Longrightarrow> 0 \<le> degree rowptr r"
  proof -
    fix r assume "r \<in> set src_index"
    then have "0 \<le> r" "nat r + 1 < length rowptr" using rows by (auto simp: valid_rows_def)
    moreover have "sorted rowptr" using wf by (simp add: csr_wf_def)
    ultimately show "0 \<le> degree rowptr r" by (simp add: degree_def sorted_nth_mono)
  qed
  have ml: "map (\<lambda>i. length (?R i)) [0..<?n] = map ?d [0..<?n]"
    using lenR by (intro map_cong) simp_all
  have "length ?di = sum_list (map (\<lambda>i. length (?R i)) [0..<?n])"
    by (simp add: length_concat comp_def)
  then have ld: "length ?di = sum_list (map ?d [0..<?n])"
    by (simp only: ml)
  have l1: "length ?sb = length ?di"
    using ld by (simp add: length_concat comp_def)
  have "sum_list (map ?d [0..<?n]) = sum_list (map (\<lambda>r. nat (degree rowptr r)) src_index)"
    by (simp add: map_nth_fun[where F="\<lambda>r. nat (degree rowptr r)"])
  with ld have "int (length ?di) = (\<Sum>r\<leftarrow>src_index. int (nat (degree rowptr r)))"
    by (simp add: sum_list_of_nat[symmetric] comp_def)
  also have "\<dots> = (\<Sum>r\<leftarrow>src_index. degree rowptr r)"
    using dge by (intro arg_cong[where f=sum_list] map_cong) simp_all
  finally have l2: "int (length ?di) = (\<Sum>r\<leftarrow>src_index. degree rowptr r)" .
  have rowsI: "\<forall>i<?n. map snd (filter (\<lambda>p. fst p = int i) (zip ?sb ?di)) = ?R i"
  proof (intro allI impI)
    fix i assume "i < ?n"
    then show "map snd (filter (\<lambda>p. fst p = int i) (zip ?sb ?di)) = ?R i"
      using lenR by (rule filter_concat_blocks)
  qed
  have zero: "\<forall>i<?n. degree rowptr (src_index ! i) = 0 \<longrightarrow> int i \<notin> set ?sb"
    by auto
  have both: "\<forall>i<?n. map snd (filter (\<lambda>p. fst p = int i) (zip ?sb ?di)) = ?R i \<and>
      (degree rowptr (src_index ! i) = 0 \<longrightarrow> int i \<notin> set ?sb)"
    using rowsI zero by blast
  show ?thesis
    by (rule exI[of _ ?sb], rule exI[of _ ?di], intro conjI, rule cf, rule l1, rule l2, rule both)
qed

theorem get_rhs_index_expands_rows_witness:
  "csr_wf [0, 2, 2, 5] [10, 11, 12, 13, 14] \<and> valid_rows [0, 2, 2, 5] [2, 0, 1] \<and>
   (\<exists>src_batch dst_index.
     get_rhs_index [2, 0, 1] [0, 2, 2, 5] [10, 11, 12, 13, 14] = Inr (src_batch, dst_index) \<and>
     length src_batch = length dst_index \<and>
     int (length dst_index) = (\<Sum>r\<leftarrow>[2, 0, 1]. degree [0, 2, 2, 5] r) \<and>
     (\<forall>i<length [2, 0, 1 :: int].
        map snd (filter (\<lambda>p. fst p = int i) (zip src_batch dst_index))
          = csr_row [0, 2, 2, 5] [10, 11, 12, 13, 14] ([2, 0, 1] ! i) \<and>
        (degree [0, 2, 2, 5] ([2, 0, 1] ! i) = 0 \<longrightarrow> int i \<notin> set src_batch)))"
proof -
  have h1: "csr_wf [0, 2, 2, 5] [10, 11, 12, 13, 14]" by (simp add: csr_wf_def)
  have h2: "valid_rows [0, 2, 2, 5] [2, 0, 1]" by (simp add: valid_rows_def)
  show ?thesis
    by (rule conjI [OF h1 conjI [OF h2 get_rhs_index_expands_rows [OF h1 h2]]])
qed

section \<open>The logit fuser: results\<close>

text \<open>
  Claim C1. For every well-shaped batch whose sparse coordinates are in range and pairwise
  distinct, \<open>construct_logits\<close> returns a matrix with one row per source row and one
  column per sampled candidate. The cell at each sparse coordinate
  \<open>(lhs_idgnn_batch[k], rhs_idgnn_index[k])\<close> holds the sparse score of \<open>k\<close> (the head's output
  plus the product of the row's embedding with the candidate's graph embedding) plus that
  row's \<open>lin_offset_idgnn\<close>, whatever the dense value there was; every other cell holds the
  dense bilinear score plus that row's \<open>lin_offset_embgnn\<close>.
\<close>

theorem construct_logits_overwrites:
  assumes lB: "length lhs_embedding = length lhs_embedding_projected"
    and dims: "\<forall>a \<in> set lhs_embedding_projected. \<forall>r \<in> set rhs_emb. length a = length r"
    and chans: "\<forall>x \<in> set lhs_embedding. \<forall>y \<in> set rhs_gnn_embedding. length x = length y"
    and lS: "length rhs_gnn_embedding = length lhs_idgnn_batch"
    and lC: "length rhs_idgnn_index = length lhs_idgnn_batch"
    and vb: "valid_ids (length lhs_embedding_projected) lhs_idgnn_batch"
    and vc: "valid_ids (length rhs_emb) rhs_idgnn_index"
    and dist: "distinct (zip lhs_idgnn_batch rhs_idgnn_index)"
  shows "\<exists>M.
     construct_logits self lhs_embedding_projected lhs_embedding rhs_gnn_embedding rhs_emb
       lhs_idgnn_batch rhs_idgnn_index = Inr M \<and>
     length M = length lhs_embedding_projected \<and>
     (\<forall>row \<in> set M. length row = length rhs_emb) \<and>
     (\<forall>k < length lhs_idgnn_batch.
        M ! nat (lhs_idgnn_batch ! k) ! nat (rhs_idgnn_index ! k)
          = head self (rhs_gnn_embedding ! k)
            + dot (lhs_embedding ! nat (lhs_idgnn_batch ! k)) (rhs_gnn_embedding ! k)
            + lin_offset_idgnn self (lhs_embedding_projected ! nat (lhs_idgnn_batch ! k))) \<and>
     (\<forall>i < length lhs_embedding_projected. \<forall>j < length rhs_emb.
        (int i, int j) \<notin> set (zip lhs_idgnn_batch rhs_idgnn_index) \<longrightarrow>
        M ! i ! j = dot (lhs_embedding_projected ! i) (rhs_emb ! j)
                    + lin_offset_embgnn self (lhs_embedding_projected ! i))"
proof -
  let ?A = lhs_embedding_projected and ?R = rhs_emb and ?L = lhs_embedding
  let ?G = rhs_gnn_embedding and ?b = lhs_idgnn_batch and ?c = rhs_idgnn_index
  let ?B = "length ?A" and ?K = "length ?R" and ?S = "length ?b"
  let ?E0 = "map (\<lambda>a. map (\<lambda>r. dot a r) ?R) ?A"
  let ?E1 = "map2 (\<lambda>row off. map (\<lambda>x. x + off) row) ?E0 (map (lin_offset_embgnn self) ?A)"
  let ?rows = "map (\<lambda>i. ?L ! nat i) ?b"
  let ?inter = "map2 dot ?rows ?G"
  let ?id1 = "map2 (\<lambda>x y. x + y) (map (head self) ?G) ?inter"
  let ?offs = "map (\<lambda>i. map (lin_offset_idgnn self) ?A ! nat i) ?b"
  let ?id2 = "map2 (\<lambda>x y. x + y) ?id1 ?offs"
  have mm: "matmul_t ?A ?R = Inr ?E0" using dims by (simp add: matmul_t_def)
  have sel: "index_select ?L ?b = Inr ?rows"
    using vb lB by (intro index_select_valid) (simp add: valid_ids_def)
  have rd: "rowwise_dot ?rows ?G = Inr ?inter"
  proof -
    have "\<forall>(x, y) \<in> set (zip ?rows ?G). length x = length y"
    proof (clarify)
      fix x y assume xy: "(x, y) \<in> set (zip ?rows ?G)"
      then have "x \<in> set ?rows" "y \<in> set ?G" by (auto dest: set_zip_leftD set_zip_rightD)
      then obtain i where "i \<in> set ?b" "x = ?L ! nat i" by auto
      then have "x \<in> set ?L" using vb lB by (auto simp: valid_ids_def)
      then show "length x = length y" using chans \<open>y \<in> set ?G\<close> by blast
    qed
    then show ?thesis using lS by (simp add: rowwise_dot_def)
  qed
  have so: "index_select (map (lin_offset_idgnn self) ?A) ?b = Inr ?offs"
    using vb by (intro index_select_valid) (simp add: valid_ids_def)
  have unfold: "construct_logits self ?A ?L ?G ?R ?b ?c = index_put2 ?K ?E1 ?b ?c ?id2"
    unfolding construct_logits_def using mm sel rd so by (simp add: Let_def)
  have lE1: "length ?E1 = ?B" by simp
  have rowsE1: "\<forall>row \<in> set ?E1. length row = ?K"
    by (auto simp: set_zip)
  have lid2: "length ?id2 = ?S" using lS by simp
  have vb': "valid_ids (length ?E1) ?b" using vb by simp
  from index_put2_valid[OF lC[symmetric] _ vb' vc rowsE1 dist, of ?id2] lid2
  obtain M where M: "index_put2 ?K ?E1 ?b ?c ?id2 = Inr M" "length M = length ?E1"
    "\<forall>row \<in> set M. length row = ?K"
    "\<forall>k < ?S. M ! nat (?b ! k) ! nat (?c ! k) = ?id2 ! k"
    "\<forall>i < length ?E1. \<forall>j < ?K. (int i, int j) \<notin> set (zip ?b ?c) \<longrightarrow> M ! i ! j = ?E1 ! i ! j"
    by auto
  have id2: "\<forall>k < ?S. ?id2 ! k = head self (?G ! k) + dot (?L ! nat (?b ! k)) (?G ! k)
        + lin_offset_idgnn self (?A ! nat (?b ! k))"
  proof (intro allI impI)
    fix k assume k: "k < ?S"
    have "?b ! k \<in> set ?b" using k by simp
    then have "nat (?b ! k) < ?B" using vb by (auto simp: valid_ids_def)
    then show "?id2 ! k = head self (?G ! k) + dot (?L ! nat (?b ! k)) (?G ! k)
        + lin_offset_idgnn self (?A ! nat (?b ! k))"
      using k lS by simp
  qed
  have e1: "\<forall>i < ?B. \<forall>j < ?K. ?E1 ! i ! j = dot (?A ! i) (?R ! j) + lin_offset_embgnn self (?A ! i)"
    by simp
  have sparse: "\<forall>k < ?S. M ! nat (?b ! k) ! nat (?c ! k)
        = head self (?G ! k) + dot (?L ! nat (?b ! k)) (?G ! k)
          + lin_offset_idgnn self (?A ! nat (?b ! k))"
    using M(4) id2 by simp
  have dense: "\<forall>i < ?B. \<forall>j < ?K. (int i, int j) \<notin> set (zip ?b ?c) \<longrightarrow>
        M ! i ! j = dot (?A ! i) (?R ! j) + lin_offset_embgnn self (?A ! i)"
  proof (intro allI impI)
    fix i j assume i: "i < ?B" and j: "j < ?K" and n: "(int i, int j) \<notin> set (zip ?b ?c)"
    have "M ! i ! j = ?E1 ! i ! j" using M(5) i j n lE1 by simp
    then show "M ! i ! j = dot (?A ! i) (?R ! j) + lin_offset_embgnn self (?A ! i)"
      using e1 i j by simp
  qed
  have run: "construct_logits self ?A ?L ?G ?R ?b ?c = Inr M" using unfold M(1) by simp
  have lM: "length M = ?B" using M(2) by simp
  show ?thesis
    by (rule exI[of _ M], intro conjI, rule run, rule lM, rule M(3), rule sparse, rule dense)
qed


theorem construct_logits_overwrites_witness:
  "length [[1], [2 :: real]] = length [[1, 2], [3, 4 :: real]] \<and>
   length [[10], [20], [30 :: real]] = length [0, 1, 1 :: int] \<and>
   length [2, 0, 1 :: int] = length [0, 1, 1 :: int] \<and>
   valid_ids (length [[1, 2], [3, 4 :: real]]) [0, 1, 1] \<and>
   valid_ids (length [[1, 0], [0, 1], [1, 1 :: real]]) [2, 0, 1] \<and>
   distinct (zip [0, 1, 1 :: int] [2, 0, 1 :: int]) \<and>
   (\<exists>M.
     construct_logits scenario_model [[1, 2], [3, 4]] [[1], [2]] [[10], [20], [30]]
       [[1, 0], [0, 1], [1, 1]] [0, 1, 1] [2, 0, 1] = Inr M \<and>
     length M = length [[1, 2], [3, 4 :: real]] \<and>
     (\<forall>row \<in> set M. length row = length [[1, 0], [0, 1], [1, 1 :: real]]) \<and>
     (\<forall>k < length [0, 1, 1 :: int].
        M ! nat ([0, 1, 1] ! k) ! nat ([2, 0, 1] ! k)
          = head scenario_model ([[10], [20], [30]] ! k)
            + dot ([[1], [2]] ! nat ([0, 1, 1] ! k)) ([[10], [20], [30]] ! k)
            + lin_offset_idgnn scenario_model ([[1, 2], [3, 4]] ! nat ([0, 1, 1] ! k))) \<and>
     (\<forall>i < length [[1, 2], [3, 4 :: real]]. \<forall>j < length [[1, 0], [0, 1], [1, 1 :: real]].
        (int i, int j) \<notin> set (zip [0, 1, 1] [2, 0, 1]) \<longrightarrow>
        M ! i ! j = dot ([[1, 2], [3, 4]] ! i) ([[1, 0], [0, 1], [1, 1]] ! j)
                    + lin_offset_embgnn scenario_model ([[1, 2], [3, 4]] ! i)))"
proof -
  have h1: "length [[1], [2 :: real]] = length [[1, 2], [3, 4 :: real]]" by simp
  have h2: "\<forall>a \<in> set [[1, 2], [3, 4 :: real]]. \<forall>r \<in> set [[1, 0], [0, 1], [1, 1 :: real]].
      length a = length r" by simp
  have h3: "\<forall>x \<in> set [[1], [2 :: real]]. \<forall>y \<in> set [[10], [20], [30 :: real]].
      length x = length y" by simp
  have h4: "length [[10], [20], [30 :: real]] = length [0, 1, 1 :: int]" by simp
  have h5: "length [2, 0, 1 :: int] = length [0, 1, 1 :: int]" by simp
  have h6: "valid_ids (length [[1, 2], [3, 4 :: real]]) [0, 1, 1]" by (simp add: valid_ids_def)
  have h7: "valid_ids (length [[1, 0], [0, 1], [1, 1 :: real]]) [2, 0, 1]"
    by (simp add: valid_ids_def)
  have h8: "distinct (zip [0, 1, 1 :: int] [2, 0, 1 :: int])" by simp
  show ?thesis
    by (intro conjI, rule h1, rule h4, rule h5, rule h6, rule h7, rule h8,
        rule construct_logits_overwrites [OF h1 h2 h3 h4 h5 h6 h7 h8])
qed

section \<open>The candidate sampler: results\<close>

text \<open>
  Claim C2. For every catalog size, every budget \<open>k\<close> with \<open>0 \<le> k \<le> num_rhs_nodes\<close>,
  every priority set and every required set of valid ids, the Candidate Sampler (lines 100
  to 107 of \<open>sample_step\<close>) returns exactly \<open>k\<close> distinct candidate ids, all of them valid;
  and whenever the number of (distinct) required ids is at most \<open>k\<close>, every required id is
  among them.
\<close>

theorem candidate_sampler_size_and_required:
  assumes "rand_ok (num_rhs_nodes self) draws"
    and "valid_ids (num_rhs_nodes self) rhs_idgnn_index"
    and "valid_ids (num_rhs_nodes self) rhs_y_index"
    and "rhs_sample_size self = Some k" and "0 \<le> k" and "k \<le> int (num_rhs_nodes self)"
  shows "\<exists>rhs_index.
     candidate_sampler self draws rhs_idgnn_index (Some rhs_y_index) = Inr rhs_index \<and>
     int (length rhs_index) = k \<and> distinct rhs_index \<and>
     valid_ids (num_rhs_nodes self) rhs_index \<and>
     (int (card (set rhs_y_index)) \<le> k \<longrightarrow> set rhs_y_index \<subseteq> set rhs_index)"
proof -
  let ?n = "num_rhs_nodes self"
  let ?rnd = "map (\<lambda>j. if int j \<in> set rhs_y_index then 4
                       else if int j \<in> set rhs_idgnn_index then 3 else draws ! j) [0..<?n]"
  from candidate_sampler_ok[OF assms] obtain idx
    where tk: "is_topk ?rnd (nat k) idx"
      and cs: "candidate_sampler self draws rhs_idgnn_index (Some rhs_y_index) = Inr (map int idx)"
    by blast
  have len: "length ?rnd = ?n" by simp
  note ids = is_topk_as_ids[OF tk len]
  have l: "int (length (map int idx)) = k" using ids(1) assms(5) by simp
  have req: "int (card (set rhs_y_index)) \<le> k \<longrightarrow> set rhs_y_index \<subseteq> set (map int idx)"
  proof
    assume "int (card (set rhs_y_index)) \<le> k"
    then have "card (set rhs_y_index) \<le> nat k" by linarith
    from forced_topk_required[OF assms(1) assms(3) tk refl this]
    show "set rhs_y_index \<subseteq> set (map int idx)" using ids(4) by simp
  qed
  show ?thesis
    by (rule exI[of _ "map int idx"], intro conjI, rule cs, rule l, rule ids(2), rule ids(3), rule req)
qed

theorem candidate_sampler_size_and_required_witness:
  "rand_ok (num_rhs_nodes scenario_model) scenario_draws \<and>
   valid_ids (num_rhs_nodes scenario_model) [2, 3] \<and>
   valid_ids (num_rhs_nodes scenario_model) [7] \<and>
   rhs_sample_size scenario_model = Some 4 \<and> (0::int) \<le> 4 \<and>
   4 \<le> int (num_rhs_nodes scenario_model) \<and>
   (\<exists>rhs_index.
     candidate_sampler scenario_model scenario_draws [2, 3] (Some [7]) = Inr rhs_index \<and>
     int (length rhs_index) = 4 \<and> distinct rhs_index \<and>
     valid_ids (num_rhs_nodes scenario_model) rhs_index \<and>
     (int (card (set [7 :: int])) \<le> 4 \<longrightarrow> set [7] \<subseteq> set rhs_index))"
proof -
  have h1: "rand_ok (num_rhs_nodes scenario_model) scenario_draws"
    by (simp add: rand_ok_def scenario_model_def scenario_draws_def)
  have h2: "valid_ids (num_rhs_nodes scenario_model) [2, 3]"
    by (simp add: valid_ids_def scenario_model_def)
  have h3: "valid_ids (num_rhs_nodes scenario_model) [7]"
    by (simp add: valid_ids_def scenario_model_def)
  have h4: "rhs_sample_size scenario_model = Some 4" by (simp add: scenario_model_def)
  have h5: "(0::int) \<le> 4" by simp
  have h6: "4 \<le> int (num_rhs_nodes scenario_model)" by (simp add: scenario_model_def)
  show ?thesis
    by (intro conjI, rule h1, rule h2, rule h3, rule h4, rule h5, rule h6,
        rule candidate_sampler_size_and_required [OF h1 h2 h3 h4 h5 h6])
qed

text \<open>
  Claim C6. When the distinct required ids fit the budget but the union of required and
  priority ids exceeds it, every required id is still selected, some forced id is left out,
  and every forced id that is left out is a priority id and not a required id. An id in
  both sets carries the required priority value \<open>4\<close> and is selected.
\<close>

theorem required_wins_over_priority:
  assumes "rand_ok (num_rhs_nodes self) draws"
    and "valid_ids (num_rhs_nodes self) rhs_idgnn_index"
    and "valid_ids (num_rhs_nodes self) rhs_y_index"
    and "rhs_sample_size self = Some k" and "0 \<le> k" and "k \<le> int (num_rhs_nodes self)"
    and fits: "int (card (set rhs_y_index)) \<le> k"
    and over: "k < int (card (set rhs_y_index \<union> set rhs_idgnn_index))"
  shows "\<exists>rhs_index rnd.
     candidate_sampler self draws rhs_idgnn_index (Some rhs_y_index) = Inr rhs_index \<and>
     priorities draws rhs_idgnn_index (Some rhs_y_index) = Inr rnd \<and>
     set rhs_y_index \<subseteq> set rhs_index \<and>
     (set rhs_y_index \<union> set rhs_idgnn_index) - set rhs_index \<noteq> {} \<and>
     (\<forall>x \<in> (set rhs_y_index \<union> set rhs_idgnn_index) - set rhs_index.
         x \<in> set rhs_idgnn_index \<and> x \<notin> set rhs_y_index) \<and>
     (\<forall>x \<in> set rhs_y_index \<inter> set rhs_idgnn_index. rnd ! nat x = 4 \<and> x \<in> set rhs_index)"
proof -
  let ?n = "num_rhs_nodes self"
  let ?rnd = "map (\<lambda>j. if int j \<in> set rhs_y_index then 4
                       else if int j \<in> set rhs_idgnn_index then 3 else draws ! j) [0..<?n]"
  from candidate_sampler_ok[OF assms(1-6)] obtain idx
    where tk: "is_topk ?rnd (nat k) idx"
      and cs: "candidate_sampler self draws rhs_idgnn_index (Some rhs_y_index) = Inr (map int idx)"
    by blast
  have len: "length ?rnd = ?n" by simp
  note ids = is_topk_as_ids[OF tk len]
  have dl: "length draws = ?n" using assms(1) by (simp add: rand_ok_def)
  have pr: "priorities draws rhs_idgnn_index (Some rhs_y_index) = Inr ?rnd"
    using dl assms(2,3) by (rule priorities_valid)
  have "card (set rhs_y_index) \<le> nat k" using fits by linarith
  from forced_topk_required[OF assms(1) assms(3) tk refl this]
  have req: "set rhs_y_index \<subseteq> set (map int idx)" using ids(4) by simp
  have ne: "(set rhs_y_index \<union> set rhs_idgnn_index) - set (map int idx) \<noteq> {}"
  proof
    assume "(set rhs_y_index \<union> set rhs_idgnn_index) - set (map int idx) = {}"
    then have "set rhs_y_index \<union> set rhs_idgnn_index \<subseteq> set (map int idx)" by blast
    then have "card (set rhs_y_index \<union> set rhs_idgnn_index) \<le> card (set (map int idx))"
      by (intro card_mono) simp_all
    also have "\<dots> \<le> length (map int idx)" by (rule card_length)
    finally show False using over ids(1) assms(5) by linarith
  qed
  have excl: "\<forall>x \<in> (set rhs_y_index \<union> set rhs_idgnn_index) - set (map int idx).
         x \<in> set rhs_idgnn_index \<and> x \<notin> set rhs_y_index"
    using req by blast
  have both: "\<forall>x \<in> set rhs_y_index \<inter> set rhs_idgnn_index. ?rnd ! nat x = 4 \<and> x \<in> set (map int idx)"
  proof
    fix x assume x: "x \<in> set rhs_y_index \<inter> set rhs_idgnn_index"
    then have "0 \<le> x" "x < int ?n" using assms(3) by (auto simp: valid_ids_def)
    then have "nat x < ?n" "int (nat x) = x" by simp_all
    then have "?rnd ! nat x = 4" using x by simp
    then show "?rnd ! nat x = 4 \<and> x \<in> set (map int idx)" using x req by blast
  qed
  show ?thesis
    by (rule exI[of _ "map int idx"], rule exI[of _ ?rnd], intro conjI,
        rule cs, rule pr, rule req, rule ne, rule excl, rule both)
qed

theorem required_wins_over_priority_witness:
  "rand_ok (num_rhs_nodes scenario_model) scenario_draws \<and>
   valid_ids (num_rhs_nodes scenario_model) [2, 3, 4, 5, 7] \<and>
   valid_ids (num_rhs_nodes scenario_model) [7, 1] \<and>
   rhs_sample_size scenario_model = Some 4 \<and> (0::int) \<le> 4 \<and>
   4 \<le> int (num_rhs_nodes scenario_model) \<and>
   int (card (set [7, 1 :: int])) \<le> 4 \<and>
   4 < int (card (set [7, 1] \<union> set [2, 3, 4, 5, 7 :: int])) \<and>
   (\<exists>rhs_index rnd.
     candidate_sampler scenario_model scenario_draws [2, 3, 4, 5, 7] (Some [7, 1]) = Inr rhs_index \<and>
     priorities scenario_draws [2, 3, 4, 5, 7] (Some [7, 1]) = Inr rnd \<and>
     set [7, 1] \<subseteq> set rhs_index \<and>
     (set [7, 1] \<union> set [2, 3, 4, 5, 7]) - set rhs_index \<noteq> {} \<and>
     (\<forall>x \<in> (set [7, 1] \<union> set [2, 3, 4, 5, 7]) - set rhs_index.
         x \<in> set [2, 3, 4, 5, 7] \<and> x \<notin> set [7, 1]) \<and>
     (\<forall>x \<in> set [7, 1] \<inter> set [2, 3, 4, 5, 7]. rnd ! nat x = 4 \<and> x \<in> set rhs_index))"
proof -
  have h1: "rand_ok (num_rhs_nodes scenario_model) scenario_draws"
    by (simp add: rand_ok_def scenario_model_def scenario_draws_def)
  have h2: "valid_ids (num_rhs_nodes scenario_model) [2, 3, 4, 5, 7]"
    by (simp add: valid_ids_def scenario_model_def)
  have h3: "valid_ids (num_rhs_nodes scenario_model) [7, 1]"
    by (simp add: valid_ids_def scenario_model_def)
  have h4: "rhs_sample_size scenario_model = Some 4" by (simp add: scenario_model_def)
  have h5: "(0::int) \<le> 4" by simp
  have h6: "4 \<le> int (num_rhs_nodes scenario_model)" by (simp add: scenario_model_def)
  have h7: "int (card (set [7, 1 :: int])) \<le> 4" by simp
  have h8: "4 < int (card (set [7, 1] \<union> set [2, 3, 4, 5, 7 :: int]))" by simp
  show ?thesis
    by (intro conjI, rule h1, rule h2, rule h3, rule h4, rule h5, rule h6, rule h7, rule h8,
        rule required_wins_over_priority [OF h1 h2 h3 h4 h5 h6 h7 h8])
qed

section \<open>The index remapper: results\<close>




text \<open>
  Claim C5 says that the remap is total whenever the inclusive guard of \<open>sample_step\<close>
  holds. The guard counts ids; it does not look at them. In the scenario the one required
  id is \<open>-1\<close>: the guard \<open>1 <= 4\<close> holds and the sampler accepts the id (it forces
  candidate \<open>9\<close>), yet \<open>-1\<close> is not in the sampled array. The masked remap would drop it
  with a False mask entry, while the inclusive remap, which the code takes, returns the
  content of an uninitialised cell.
\<close>

theorem guard_holds_remap_partial_counterexample:
  "valid_ids (num_rhs_nodes scenario_model) [2] \<and>
   rhs_sample_size scenario_model = Some 4 \<and>
   int (length [- 1 :: int]) \<le> 4 \<and>
   candidate_sampler scenario_model scenario_draws [2] (Some [- 1]) = Inr [9, 2, 8, 7] \<and>
   - 1 \<notin> set [9, 2, 8, 7 :: int] \<and>
   map_index (\<lambda>_. 77) [- 1] [9, 2, 8, 7] (Some (int (num_rhs_nodes scenario_model))) False
     = Inr ([], Some [False]) \<and>
   map_index (\<lambda>_. 77) [- 1] [9, 2, 8, 7] (Some (int (num_rhs_nodes scenario_model))) True
     = Inr ([77], None)"
  by code_simp

text \<open>
  Claim C5, amended. Whenever the inclusive guard computed in \<open>sample_step\<close> holds and
  every id of \<open>rhs_y_index\<close> and \<open>rhs_idgnn_index\<close> lies in \<open>[0, num_rhs_nodes)\<close>, the
  corresponding remap is total. If \<open>rhs_y_index.numel() <= rhs_sample_size\<close>, every
  required id is in the sampled array, and the masked remap would return the ids that the
  inclusive remap returned, with a mask that is True everywhere. If the remapped
  \<open>rhs_y_index.numel() + rhs_idgnn_index.numel() <= rhs_sample_size\<close>, every priority id is
  in the sampled array, and the masked remap of the priority ids behaves as the inclusive
  one does, with a mask that is True everywhere. Skipping the mask step loses nothing.
\<close>

theorem inclusive_guard_total:
  assumes "rand_ok (num_rhs_nodes self) draws"
    and "valid_ids (num_rhs_nodes self) rhs_idgnn_index"
    and "valid_ids (num_rhs_nodes self) rhs_y_index"
    and "candidate_sampler self draws rhs_idgnn_index (Some rhs_y_index) = Inr rhs_index"
    and k: "rhs_sample_size self = Some k"
    and first: "map_index junk0 rhs_y_index rhs_index (Some (int (num_rhs_nodes self)))
                  (int (length rhs_y_index) \<le> k) = Inr (y', m)"
  shows "(int (length rhs_y_index) \<le> k \<longrightarrow>
            set rhs_y_index \<subseteq> set rhs_index \<and>
            map_index junk0 rhs_y_index rhs_index (Some (int (num_rhs_nodes self))) False
              = Inr (y', Some (replicate (length rhs_y_index) True))) \<and>
         (int (length y') + int (length rhs_idgnn_index) \<le> k \<longrightarrow>
            set rhs_idgnn_index \<subseteq> set rhs_index \<and>
            map_index junk1 rhs_idgnn_index rhs_index None False
              = (case map_index junk1 rhs_idgnn_index rhs_index None True of
                   Inl e \<Rightarrow> Inl e
                 | Inr (out, u) \<Rightarrow> Inr (out, Some (replicate (length rhs_idgnn_index) True))))"
proof -
  let ?n = "num_rhs_nodes self"
  let ?Y = rhs_y_index and ?P = rhs_idgnn_index
  let ?rnd = "map (\<lambda>j. if int j \<in> set ?Y then 4 else if int j \<in> set ?P then 3 else draws ! j) [0..<?n]"
  let ?F = "filter (\<lambda>s. s \<in> set rhs_index) ?Y"
  from candidate_sampler_InrD[OF assms(1-4)] k obtain idx where
    k0: "0 \<le> k" "k \<le> int ?n" and r: "rhs_index = map int idx"
    and tk: "is_topk ?rnd (nat k) idx" by auto
  have len: "length ?rnd = ?n" by simp
  note ids = is_topk_as_ids[OF tk len]
  have sr: "set rhs_index = int ` set idx" using ids(4) r by simp
  note s = sampled_ids[OF assms(1-4)]
  note cy = remap_closed_max[OF s(1) s(2) assms(3), of junk0]
  have part1: "int (length ?Y) \<le> k \<longrightarrow>
            set ?Y \<subseteq> set rhs_index \<and>
            map_index junk0 ?Y rhs_index (Some (int ?n)) False
              = Inr (y', Some (replicate (length ?Y) True))"
  proof
    assume g1: "int (length ?Y) \<le> k"
    have "card (set ?Y) \<le> length ?Y" by (rule card_length)
    then have "card (set ?Y) \<le> nat k" using g1 by linarith
    from forced_topk_required[OF assms(1) assms(3) tk refl this]
    have sub: "set ?Y \<subseteq> set rhs_index" using sr by simp
    note ap = map_all_present[OF sub]
    have "y' = map (position rhs_index) ?Y"
      using first g1 cy(2) ap(3)[of junk0] by simp
    then have "map_index junk0 ?Y rhs_index (Some (int ?n)) False
              = Inr (y', Some (replicate (length ?Y) True))"
      using cy(1) ap(1,2) by simp
    then show "set ?Y \<subseteq> set rhs_index \<and>
            map_index junk0 ?Y rhs_index (Some (int ?n)) False
              = Inr (y', Some (replicate (length ?Y) True))"
      using sub by simp
  qed
  have ly: "length ?F \<le> length y'"
  proof (cases "int (length ?Y) \<le> k")
    case True
    then have "length y' = length ?Y" using first cy(2) by auto
    then show ?thesis by simp
  next
    case False
    then have "y' = map (position rhs_index) ?F" using first cy(1) by simp
    then show ?thesis by simp
  qed
  have part2: "int (length y') + int (length ?P) \<le> k \<longrightarrow>
            set ?P \<subseteq> set rhs_index \<and>
            map_index junk1 ?P rhs_index None False
              = (case map_index junk1 ?P rhs_index None True of
                   Inl e \<Rightarrow> Inl e
                 | Inr (out, u) \<Rightarrow> Inr (out, Some (replicate (length ?P) True)))"
  proof
    assume g2: "int (length y') + int (length ?P) \<le> k"
    have "length ?F + length ?P \<le> nat k" using g2 ly by linarith
    then have "length (filter (\<lambda>y. y \<in> int ` set idx) ?Y) + length ?P \<le> nat k"
      using sr by simp
    from forced_topk_priority[OF assms(1) assms(2) tk refl this]
    have sub: "set ?P \<subseteq> set rhs_index" using sr by simp
    note ap = map_all_present[OF sub]
    have eq: "map_index junk1 ?P rhs_index None False
              = (case map_index junk1 ?P rhs_index None True of
                   Inl e \<Rightarrow> Inl e
                 | Inr (out, u) \<Rightarrow> Inr (out, Some (replicate (length ?P) True)))"
    proof (cases "?P = []")
      case True
      then show ?thesis by (simp add: map_index_empty_src)
    next
      case False
      then have ne: "rhs_index \<noteq> []" using sub by auto
      note cp = remap_closed_no_max[OF s(1) s(2) assms(2) False ne, of junk1]
      show ?thesis using cp ap(1,2) ap(3)[of junk1] by simp
    qed
    show "set ?P \<subseteq> set rhs_index \<and>
            map_index junk1 ?P rhs_index None False
              = (case map_index junk1 ?P rhs_index None True of
                   Inl e \<Rightarrow> Inl e
                 | Inr (out, u) \<Rightarrow> Inr (out, Some (replicate (length ?P) True)))"
      using sub eq by (rule conjI)
  qed
  show ?thesis using part1 part2 by (rule conjI)
qed


theorem inclusive_guard_total_witness:
  "rand_ok (num_rhs_nodes scenario_model) scenario_draws \<and>
   valid_ids (num_rhs_nodes scenario_model) [2, 3] \<and>
   valid_ids (num_rhs_nodes scenario_model) [7] \<and>
   candidate_sampler scenario_model scenario_draws [2, 3] (Some [7]) = Inr [7, 2, 3, 8] \<and>
   rhs_sample_size scenario_model = Some 4 \<and>
   map_index (\<lambda>_. 0) [7] [7, 2, 3, 8] (Some (int (num_rhs_nodes scenario_model)))
     (int (length [7 :: int]) \<le> 4) = Inr ([0], None) \<and>
   int (length [7 :: int]) \<le> 4 \<and>
   set [7] \<subseteq> set [7, 2, 3, 8 :: int] \<and>
   map_index (\<lambda>_. 0) [7] [7, 2, 3, 8] (Some (int (num_rhs_nodes scenario_model))) False
     = Inr ([0], Some (replicate (length [7 :: int]) True)) \<and>
   int (length [0 :: int]) + int (length [2, 3 :: int]) \<le> 4 \<and>
   set [2, 3] \<subseteq> set [7, 2, 3, 8 :: int] \<and>
   map_index (\<lambda>_. 0) [2, 3] [7, 2, 3, 8] None False
     = (case map_index (\<lambda>_. 0) [2, 3] [7, 2, 3, 8] None True of
          Inl e \<Rightarrow> Inl e
        | Inr (out, u) \<Rightarrow> Inr (out, Some (replicate (length [2, 3 :: int]) True)))"
proof -
  have h1: "rand_ok (num_rhs_nodes scenario_model) scenario_draws"
    by (simp add: rand_ok_def scenario_model_def scenario_draws_def)
  have h2: "valid_ids (num_rhs_nodes scenario_model) [2, 3]"
    by (simp add: valid_ids_def scenario_model_def)
  have h3: "valid_ids (num_rhs_nodes scenario_model) [7]"
    by (simp add: valid_ids_def scenario_model_def)
  have h4: "candidate_sampler scenario_model scenario_draws [2, 3] (Some [7]) = Inr [7, 2, 3, 8]"
    by code_simp
  have h5: "rhs_sample_size scenario_model = Some 4" by (simp add: scenario_model_def)
  have h6: "map_index (\<lambda>_. 0) [7] [7, 2, 3, 8] (Some (int (num_rhs_nodes scenario_model)))
     (int (length [7 :: int]) \<le> 4) = Inr ([0], None)"
    by code_simp
  have g1: "int (length [7 :: int]) \<le> 4" by simp
  have g2: "int (length [0 :: int]) + int (length [2, 3 :: int]) \<le> 4" by simp
  note a = inclusive_guard_total [OF h1 h2 h3 h4 h5 h6, of "\<lambda>_. 0"]
  note b = a [THEN conjunct1, THEN mp, OF g1]
  note c = a [THEN conjunct2, THEN mp, OF g2]
  show ?thesis
    by (intro conjI, rule h1, rule h2, rule h3, rule h4, rule h5, rule h6, rule g1,
        rule b [THEN conjunct1], rule b [THEN conjunct2], rule g2,
        rule c [THEN conjunct1], rule c [THEN conjunct2])
qed


section \<open>Reproducibility of the per-batch pipeline\<close>





section \<open>The masked path of \<open>sample_step\<close>: results\<close>

text \<open>
  Claim C7 says that ids dropped by the budget are removed without an error being raised.
  The second remap is called without \<open>max_index\<close>, so it takes the maximum of its two
  arguments, and the maximum of an empty tensor raises. In the scenario there are five
  positives for four slots and no sparse-path candidate: every id is valid, the first remap
  is not inclusive, and \<open>sample_step\<close> raises at the second remap instead of returning the
  filtered arrays.
\<close>

theorem empty_sparse_path_raises_counterexample:
  "rand_ok (num_rhs_nodes scenario_model) scenario_draws \<and>
   valid_ids (num_rhs_nodes scenario_model) [] \<and>
   valid_ids (num_rhs_nodes scenario_model) [7, 1, 6, 0, 9] \<and>
   length [0, 1, 1, 1, 0 :: int] = length [7, 1, 6, 0, 9 :: int] \<and>
   rhs_sample_size scenario_model = Some 4 \<and>
   \<not> int (length [7, 1, 6, 0, 9 :: int]) \<le> 4 \<and>
   sample_step scenario_model scenario_draws (\<lambda>_ _. 0) [] [] [] [0, 1, 1, 1, 0]
     (Some [7, 1, 6, 0, 9]) = Inl RuntimeError"
  by code_simp

text \<open>
  Claim C7, amended. For valid ids, parallel arrays of matching lengths, a positive budget
  and a non-empty \<open>rhs_idgnn_index\<close>, \<open>sample_step\<close> filters every parallel per-id array by
  the validity mask of the ids it belongs to: \<open>lhs_y_batch\<close> by the mask of the positives,
  \<open>lhs_idgnn_batch\<close> and \<open>rhs_gnn_embedding\<close> by the mask of the sparse path. The call
  returns without an error, the returned parallel arrays have equal lengths, and they stay
  aligned: the returned (row, id) pairs are exactly the input pairs whose id was sampled, in
  input order, with the id relocated; ids dropped by the budget are gone together with
  their rows. This covers the inclusive branches too, where nothing is dropped.
\<close>

theorem sample_step_filters_parallel_arrays:
  assumes "rand_ok (num_rhs_nodes self) draws"
    and "valid_ids (num_rhs_nodes self) rhs_idgnn_index"
    and "valid_ids (num_rhs_nodes self) rhs_y_index"
    and k: "rhs_sample_size self = Some k" and k0: "0 < k" and kn: "k \<le> int (num_rhs_nodes self)"
    and pne: "rhs_idgnn_index \<noteq> []"
    and ly: "length lhs_y_batch = length rhs_y_index"
    and lb: "length lhs_idgnn_batch = length rhs_gnn_embedding"
    and le: "length rhs_gnn_embedding = length rhs_idgnn_index"
  shows "\<exists>rhs_index P' lb' ge' yb' Y'.
     candidate_sampler self draws rhs_idgnn_index (Some rhs_y_index) = Inr rhs_index \<and>
     sample_step self draws junk rhs_idgnn_index lhs_idgnn_batch rhs_gnn_embedding
         lhs_y_batch (Some rhs_y_index)
       = Inr (P', rhs_embedding self rhs_index, lb', ge', yb', Y') \<and>
     length yb' = length Y' \<and> length lb' = length P' \<and> length ge' = length P' \<and>
     zip yb' Y' = map (\<lambda>(b, y). (b, position rhs_index y))
                    (filter (\<lambda>(b, y). y \<in> set rhs_index) (zip lhs_y_batch rhs_y_index)) \<and>
     zip lb' (zip ge' P') = map (\<lambda>(b, e, p). (b, e, position rhs_index p))
                    (filter (\<lambda>(b, e, p). p \<in> set rhs_index)
                       (zip lhs_idgnn_batch (zip rhs_gnn_embedding rhs_idgnn_index)))"
proof -
  let ?n = "num_rhs_nodes self"
  let ?Y = rhs_y_index and ?P = rhs_idgnn_index
  let ?rnd = "map (\<lambda>j. if int j \<in> set ?Y then 4 else if int j \<in> set ?P then 3 else draws ! j) [0..<?n]"
  have k0': "0 \<le> k" using k0 by simp
  from candidate_sampler_ok[OF assms(1-3) k k0' kn] obtain idx
    where tk: "is_topk ?rnd (nat k) idx"
      and cs: "candidate_sampler self draws ?P (Some ?Y) = Inr (map int idx)"
    by blast
  define rhs_index where "rhs_index = map int idx"
  have cs': "candidate_sampler self draws ?P (Some ?Y) = Inr rhs_index"
    using cs by (simp add: rhs_index_def)
  let ?pres = "\<lambda>s. s \<in> set rhs_index"
  let ?pos = "position rhs_index"
  let ?mask = "\<lambda>xs ids. map fst (filter snd (zip xs (map ?pres ids)))"
  have len: "length ?rnd = ?n" by simp
  note ids = is_topk_as_ids[OF tk len]
  have sr: "set rhs_index = int ` set idx" using ids(4) by (simp add: rhs_index_def)
  note s = sampled_ids[OF assms(1-3) cs']
  have rne: "rhs_index \<noteq> []" using ids(1) k0 by (auto simp: rhs_index_def)
  note cy = remap_closed_max[OF s(1) s(2) assms(3), of "junk 0"]
  note cp = remap_closed_no_max[OF s(1) s(2) assms(2) pne rne, of "junk 1"]
  let ?g1 = "int (length ?Y) \<le> k"
  let ?Y' = "map ?pos (filter ?pres ?Y)"
  let ?yb' = "?mask lhs_y_batch ?Y"
  obtain m1 where first: "map_index (junk 0) ?Y rhs_index (Some (int ?n)) ?g1 = Inr (?Y', m1)"
    and yb: "(if ?g1 then Inr lhs_y_batch else mask_filter lhs_y_batch m1) = Inr ?yb'"
  proof (cases ?g1)
    case True
    have "card (set ?Y) \<le> length ?Y" by (rule card_length)
    then have "card (set ?Y) \<le> nat k" using True by linarith
    from forced_topk_required[OF assms(1) assms(3) tk refl this]
    have sub: "set ?Y \<subseteq> set rhs_index" using sr by simp
    note ap = map_all_present[OF sub]
    have a: "map_index (junk 0) ?Y rhs_index (Some (int ?n)) ?g1 = Inr (?Y', None)"
      using True cy(2) ap(1) ap(3)[of "junk 0"] by simp
    have "?yb' = lhs_y_batch" using ly sub by (intro masked_all_true) auto
    then have b: "(if ?g1 then Inr lhs_y_batch else mask_filter lhs_y_batch None) = Inr ?yb'"
      using True by simp
    show ?thesis using a b by (rule that)
  next
    case False
    have a: "map_index (junk 0) ?Y rhs_index (Some (int ?n)) ?g1
        = Inr (?Y', Some (map ?pres ?Y))"
      using False cy(1) by simp
    have b: "(if ?g1 then Inr lhs_y_batch else mask_filter lhs_y_batch (Some (map ?pres ?Y)))
        = Inr ?yb'"
      using False ly by (simp add: mask_filter_def mask_select_def)
    show ?thesis using a b by (rule that)
  qed
  let ?g2 = "int (length ?Y') + int (length ?P) \<le> k"
  let ?P' = "map ?pos (filter ?pres ?P)"
  let ?lb' = "?mask lhs_idgnn_batch ?P"
  let ?ge' = "?mask rhs_gnn_embedding ?P"
  have lbp: "length lhs_idgnn_batch = length ?P" using lb le by simp
  obtain m2 where second: "map_index (junk 1) ?P rhs_index None ?g2 = Inr (?P', m2)"
    and be: "(if \<not> ?g2
              then bindE (mask_filter lhs_idgnn_batch m2) (\<lambda>b.
                   bindE (mask_filter rhs_gnn_embedding m2) (\<lambda>e. Inr (b, e)))
              else Inr (lhs_idgnn_batch, rhs_gnn_embedding)) = Inr (?lb', ?ge')"
  proof (cases ?g2)
    case True
    then have "length (filter ?pres ?Y) + length ?P \<le> nat k" by simp
    then have "length (filter (\<lambda>y. y \<in> int ` set idx) ?Y) + length ?P \<le> nat k"
      using sr by simp
    from forced_topk_priority[OF assms(1) assms(2) tk refl this]
    have sub: "set ?P \<subseteq> set rhs_index" using sr by simp
    note ap = map_all_present[OF sub]
    have a: "map_index (junk 1) ?P rhs_index None ?g2 = Inr (?P', None)"
      using True cp(2) ap(1) ap(3)[of "junk 1"] by simp
    have "?lb' = lhs_idgnn_batch" using lbp sub by (intro masked_all_true) auto
    moreover have "?ge' = rhs_gnn_embedding" using le sub by (intro masked_all_true) auto
    ultimately have b: "(if \<not> ?g2
              then bindE (mask_filter lhs_idgnn_batch None) (\<lambda>b.
                   bindE (mask_filter rhs_gnn_embedding None) (\<lambda>e. Inr (b, e)))
              else Inr (lhs_idgnn_batch, rhs_gnn_embedding)) = Inr (?lb', ?ge')"
      using True by simp
    show ?thesis using a b by (rule that)
  next
    case False
    have a: "map_index (junk 1) ?P rhs_index None ?g2 = Inr (?P', Some (map ?pres ?P))"
      using False cp(1) by simp
    have b: "(if \<not> ?g2
              then bindE (mask_filter lhs_idgnn_batch (Some (map ?pres ?P))) (\<lambda>b.
                   bindE (mask_filter rhs_gnn_embedding (Some (map ?pres ?P))) (\<lambda>e. Inr (b, e)))
              else Inr (lhs_idgnn_batch, rhs_gnn_embedding)) = Inr (?lb', ?ge')"
      using False lbp le by (simp add: mask_filter_def mask_select_def)
    show ?thesis using a b by (rule that)
  qed
  have run: "sample_step self draws junk ?P lhs_idgnn_batch rhs_gnn_embedding
         lhs_y_batch (Some ?Y)
       = Inr (?P', rhs_embedding self rhs_index, ?lb', ?ge', ?yb', ?Y')"
    unfolding sample_step_after_sampler[OF cs' k] using first yb second be by simp
  have l1: "length ?yb' = length ?Y'"
    using masked_length[OF ly, of ?pres] by simp
  have l2: "length ?lb' = length ?P'"
    using masked_length[OF lbp, of ?pres] by simp
  have l3: "length ?ge' = length ?P'"
    using masked_length[OF le, of ?pres] by simp
  have z1: "zip ?yb' ?Y' = map (\<lambda>(b, y). (b, ?pos y))
                    (filter (\<lambda>(b, y). ?pres y) (zip lhs_y_batch ?Y))"
    using ly by (rule aligned_pairs)
  have z2: "zip ?lb' (zip ?ge' ?P') = map (\<lambda>(b, e, p). (b, e, ?pos p))
                    (filter (\<lambda>(b, e, p). ?pres p)
                       (zip lhs_idgnn_batch (zip rhs_gnn_embedding ?P)))"
    using lb le by (rule aligned_triples)
  show ?thesis
    by (rule exI[of _ rhs_index], rule exI[of _ ?P'], rule exI[of _ ?lb'], rule exI[of _ ?ge'],
        rule exI[of _ ?yb'], rule exI[of _ ?Y'],
        intro conjI, rule cs', rule run, rule l1, rule l2, rule l3, rule z1, rule z2)
qed


theorem sample_step_filters_parallel_arrays_witness:
  "rand_ok (num_rhs_nodes scenario_model) scenario_draws \<and>
   valid_ids (num_rhs_nodes scenario_model) [2, 3, 4, 5] \<and>
   valid_ids (num_rhs_nodes scenario_model) [7, 1, 6, 0, 9] \<and>
   rhs_sample_size scenario_model = Some 4 \<and> (0::int) < 4 \<and>
   4 \<le> int (num_rhs_nodes scenario_model) \<and>
   [2, 3, 4, 5 :: int] \<noteq> [] \<and>
   length [0, 1, 1, 1, 0 :: int] = length [7, 1, 6, 0, 9 :: int] \<and>
   length [0, 1, 0, 1 :: int] = length [[1], [2], [3], [4 :: real]] \<and>
   length [[1], [2], [3], [4 :: real]] = length [2, 3, 4, 5 :: int] \<and>
   (\<exists>rhs_index P' lb' ge' yb' Y'.
     candidate_sampler scenario_model scenario_draws [2, 3, 4, 5] (Some [7, 1, 6, 0, 9])
       = Inr rhs_index \<and>
     sample_step scenario_model scenario_draws (\<lambda>_ _. 0) [2, 3, 4, 5] [0, 1, 0, 1]
         [[1], [2], [3], [4]] [0, 1, 1, 1, 0] (Some [7, 1, 6, 0, 9])
       = Inr (P', rhs_embedding scenario_model rhs_index, lb', ge', yb', Y') \<and>
     length yb' = length Y' \<and> length lb' = length P' \<and> length ge' = length P' \<and>
     zip yb' Y' = map (\<lambda>(b, y). (b, position rhs_index y))
                    (filter (\<lambda>(b, y). y \<in> set rhs_index)
                       (zip [0, 1, 1, 1, 0] [7, 1, 6, 0, 9])) \<and>
     zip lb' (zip ge' P') = map (\<lambda>(b, e, p). (b, e, position rhs_index p))
                    (filter (\<lambda>(b, e, p). p \<in> set rhs_index)
                       (zip [0, 1, 0, 1] (zip [[1], [2], [3], [4]] [2, 3, 4, 5]))))"
proof -
  have h1: "rand_ok (num_rhs_nodes scenario_model) scenario_draws"
    by (simp add: rand_ok_def scenario_model_def scenario_draws_def)
  have h2: "valid_ids (num_rhs_nodes scenario_model) [2, 3, 4, 5]"
    by (simp add: valid_ids_def scenario_model_def)
  have h3: "valid_ids (num_rhs_nodes scenario_model) [7, 1, 6, 0, 9]"
    by (simp add: valid_ids_def scenario_model_def)
  have h4: "rhs_sample_size scenario_model = Some 4" by (simp add: scenario_model_def)
  have h5: "(0::int) < 4" by simp
  have h6: "4 \<le> int (num_rhs_nodes scenario_model)" by (simp add: scenario_model_def)
  have h7: "[2, 3, 4, 5 :: int] \<noteq> []" by simp
  have h8: "length [0, 1, 1, 1, 0 :: int] = length [7, 1, 6, 0, 9 :: int]" by simp
  have h9: "length [0, 1, 0, 1 :: int] = length [[1], [2], [3], [4 :: real]]" by simp
  have h10: "length [[1], [2], [3], [4 :: real]] = length [2, 3, 4, 5 :: int]" by simp
  show ?thesis
    by (intro conjI, rule h1, rule h2, rule h3, rule h4, rule h5, rule h6, rule h7, rule h8,
        rule h9, rule h10,
        rule sample_step_filters_parallel_arrays [OF h1 h2 h3 h4 h5 h6 h7 h8 h9 h10])
qed

section \<open>Ids outside the catalog\<close>

text \<open>
  Claim C8 says that every id outside \<open>[0, num_rhs_nodes)\<close> aborts the batch with an error
  and is never wrapped into range. The code has no range check of its own: it relies on
  tensor indexing, which accepts negative indices. In the scenario, the required id \<open>-1\<close>
  raises nothing; the sampler forces candidate \<open>9\<close> instead, and \<open>sample_step\<close> returns.
\<close>

theorem negative_id_wraps_counterexample:
  "\<not> valid_ids (num_rhs_nodes scenario_model) [- 1] \<and>
   candidate_sampler scenario_model scenario_draws [2, 3] (Some [- 1]) = Inr [9, 2, 3, 8] \<and>
   sample_step scenario_model scenario_draws (\<lambda>_ _. 0) [2, 3] [0, 1] [[1], [2]] [0] (Some [- 1])
     = Inr ([1, 2], [[9, 1], [2, 1], [3, 1], [8, 1]], [0, 1], [[1], [2]], [0], [0])"
  by code_simp


text \<open>
  Claim C8, amended. An id \<open>>= num_rhs_nodes\<close> or \<open>< -num_rhs_nodes\<close> in \<open>rhs_idgnn_index\<close> or
  \<open>rhs_y_index\<close> makes the sampler, and with it \<open>sample_step\<close>, raise IndexError when the
  priority array is written (the array has \<open>num_rhs_nodes\<close> entries). Ids in
  \<open>[-num_rhs_nodes, 0)\<close> are not rejected: the sampler treats id \<open>i\<close> as
  \<open>i + num_rhs_nodes\<close>.
\<close>

theorem out_of_range_ids_abort:
  "((\<exists>i \<in> set rhs_idgnn_index \<union> set rhs_y_index.
        i < - int (length draws) \<or> int (length draws) \<le> i) \<longrightarrow>
      candidate_sampler self draws rhs_idgnn_index (Some rhs_y_index) = Inl IndexError \<and>
      sample_step self draws junk rhs_idgnn_index lhs_idgnn_batch rhs_gnn_embedding
        lhs_y_batch (Some rhs_y_index) = Inl IndexError) \<and>
   ((\<forall>i \<in> set rhs_idgnn_index \<union> set rhs_y_index.
        - int (length draws) \<le> i \<and> i < int (length draws)) \<longrightarrow>
      candidate_sampler self draws rhs_idgnn_index (Some rhs_y_index)
        = candidate_sampler self draws (map (\<lambda>i. i mod int (length draws)) rhs_idgnn_index)
            (Some (map (\<lambda>i. i mod int (length draws)) rhs_y_index)))"
proof (intro conjI impI)
  assume bad: "\<exists>i \<in> set rhs_idgnn_index \<union> set rhs_y_index.
        i < - int (length draws) \<or> int (length draws) \<le> i"
  have p: "priorities draws rhs_idgnn_index (Some rhs_y_index) = Inl IndexError"
    using bad by (rule priorities_out_of_range)
  show "candidate_sampler self draws rhs_idgnn_index (Some rhs_y_index) = Inl IndexError"
    using p by (simp add: candidate_sampler_def)
  show "sample_step self draws junk rhs_idgnn_index lhs_idgnn_batch rhs_gnn_embedding
        lhs_y_batch (Some rhs_y_index) = Inl IndexError"
  proof (cases "index_fill draws rhs_idgnn_index 3")
    case (Inl e)
    then show ?thesis using p by (simp add: sample_step_def priorities_def)
  next
    case (Inr r1)
    then have "index_fill r1 rhs_y_index 4 = Inl IndexError"
      using p by (simp add: priorities_def)
    then show ?thesis using Inr by (simp add: sample_step_def)
  qed
next
  assume ok: "\<forall>i \<in> set rhs_idgnn_index \<union> set rhs_y_index.
        - int (length draws) \<le> i \<and> i < int (length draws)"
  let ?w = "\<lambda>i. i mod int (length draws)"
  have 1: "index_fill draws rhs_idgnn_index 3 = index_fill draws (map ?w rhs_idgnn_index) 3"
    using ok by (intro index_fill_mod) simp
  have 2: "\<And>r1. index_fill draws rhs_idgnn_index 3 = Inr r1 \<Longrightarrow>
      index_fill r1 rhs_y_index 4 = index_fill r1 (map ?w rhs_y_index) 4"
  proof -
    fix r1 assume "index_fill draws rhs_idgnn_index 3 = Inr r1"
    then have l: "length r1 = length draws"
      using index_fill_cases[of draws rhs_idgnn_index 3] by auto
    have "index_fill r1 rhs_y_index 4
        = index_fill r1 (map (\<lambda>i. i mod int (length r1)) rhs_y_index) 4"
      using ok l by (intro index_fill_mod) simp
    then show "index_fill r1 rhs_y_index 4 = index_fill r1 (map ?w rhs_y_index) 4"
      using l by simp
  qed
  have "priorities draws rhs_idgnn_index (Some rhs_y_index)
      = priorities draws (map ?w rhs_idgnn_index) (Some (map ?w rhs_y_index))"
  proof (cases "index_fill draws rhs_idgnn_index 3")
    case (Inl e)
    then show ?thesis using 1 by (simp add: priorities_def)
  next
    case (Inr r1)
    then show ?thesis using 1 2[OF Inr] by (simp add: priorities_def)
  qed
  then show "candidate_sampler self draws rhs_idgnn_index (Some rhs_y_index)
        = candidate_sampler self draws (map ?w rhs_idgnn_index) (Some (map ?w rhs_y_index))"
    by (simp add: candidate_sampler_def)
qed

theorem out_of_range_ids_abort_witness:
  "(\<exists>i \<in> set [2, 3] \<union> set [10].
      i < - int (length scenario_draws) \<or> int (length scenario_draws) \<le> i) \<and>
   candidate_sampler scenario_model scenario_draws [2, 3] (Some [10]) = Inl IndexError \<and>
   sample_step scenario_model scenario_draws (\<lambda>_ _. 0) [2, 3] [0, 1] [[1], [2]] [0]
     (Some [10]) = Inl IndexError \<and>
   candidate_sampler scenario_model scenario_draws [2, 3] (Some [- 1])
     = candidate_sampler scenario_model scenario_draws
         (map (\<lambda>i. i mod int (length scenario_draws)) [2, 3])
         (Some (map (\<lambda>i. i mod int (length scenario_draws)) [- 1]))"
proof -
  have h1: "\<exists>i \<in> set [2, 3] \<union> set [10].
      i < - int (length scenario_draws) \<or> int (length scenario_draws) \<le> i"
    by (simp add: scenario_draws_def)
  have h2: "\<forall>i \<in> set [2, 3] \<union> set [- 1].
      - int (length scenario_draws) \<le> i \<and> i < int (length scenario_draws)"
    by (simp add: scenario_draws_def)
  note a = out_of_range_ids_abort [where rhs_idgnn_index = "[2, 3]" and rhs_y_index = "[10]"
      and draws = scenario_draws and self = scenario_model and junk = "\<lambda>_ _. 0"
      and lhs_idgnn_batch = "[0, 1]" and rhs_gnn_embedding = "[[1], [2]]"
      and lhs_y_batch = "[0]", THEN conjunct1, THEN mp, OF h1]
  note b = out_of_range_ids_abort [where rhs_idgnn_index = "[2, 3]" and rhs_y_index = "[- 1]"
      and draws = scenario_draws and self = scenario_model,
      THEN conjunct2, THEN mp, OF h2]
  show ?thesis
    by (intro conjI, rule h1, rule a [THEN conjunct1], rule a [THEN conjunct2], rule b)
qed

section \<open>The required-set index\<close>

text \<open>
  Claim C10. \<open>forward_sample_softmax\<close> declares \<open>dst_index\<close> optional, yet a call with
  \<open>dst_index = None\<close>, of it or of \<open>sample_step\<close>, never returns: the assertion on line
  105 fails, before the top-k selection and whatever the budget is (the one earlier
  statement that can raise is the write of the priority ids, on an id outside
  \<open>[-num_rhs_nodes, num_rhs_nodes)\<close>). When \<open>dst_index\<close> is a tensor, no step of either
  function raises an AssertionError.
\<close>

theorem dst_index_is_required:
  "(\<exists>e. sample_step self draws junk rhs_idgnn_index lhs_idgnn_batch rhs_gnn_embedding
          src_batch None = Inl e) \<and>
   (\<exists>e. forward_sample_softmax self draws junk lhs_embedding rhs_gnn_embedding rhs_idgnn_index
          lhs_idgnn_batch src_batch None = Inl e) \<and>
   ((\<forall>i \<in> set rhs_idgnn_index. - int (length draws) \<le> i \<and> i < int (length draws)) \<longrightarrow>
      sample_step self draws junk rhs_idgnn_index lhs_idgnn_batch rhs_gnn_embedding
        src_batch None = Inl AssertionError \<and>
      forward_sample_softmax self draws junk lhs_embedding rhs_gnn_embedding rhs_idgnn_index
        lhs_idgnn_batch src_batch None = Inl AssertionError) \<and>
   sample_step self draws junk rhs_idgnn_index lhs_idgnn_batch rhs_gnn_embedding
     src_batch (Some dst_index) \<noteq> Inl AssertionError \<and>
   forward_sample_softmax self draws junk lhs_embedding rhs_gnn_embedding rhs_idgnn_index
     lhs_idgnn_batch src_batch (Some dst_index) \<noteq> Inl AssertionError"
proof -
  let ?s = "\<lambda>d. sample_step self draws junk rhs_idgnn_index lhs_idgnn_batch rhs_gnn_embedding
             src_batch d"
  let ?f = "\<lambda>d. forward_sample_softmax self draws junk lhs_embedding rhs_gnn_embedding
             rhs_idgnn_index lhs_idgnn_batch src_batch d"
  have fwd: "\<And>d e. ?s d = Inl e \<Longrightarrow> ?f d = Inl e"
    by (simp add: forward_sample_softmax_def Let_def)
  have none: "\<exists>e. ?s None = Inl e"
    by (cases "index_fill draws rhs_idgnn_index 3") (simp_all add: sample_step_def)
  then have 1: "\<exists>e. ?s None = Inl e" and 2: "\<exists>e. ?f None = Inl e" using fwd by blast+
  have 3: "(\<forall>i \<in> set rhs_idgnn_index. - int (length draws) \<le> i \<and> i < int (length draws)) \<longrightarrow>
      ?s None = Inl AssertionError \<and> ?f None = Inl AssertionError"
  proof
    assume "\<forall>i \<in> set rhs_idgnn_index. - int (length draws) \<le> i \<and> i < int (length draws)"
    then obtain js where "wrap_all (length draws) rhs_idgnn_index = Inr js"
      using wrap_all_in_range by blast
    then have "?s None = Inl AssertionError"
      by (simp add: sample_step_def index_fill_def)
    then show "?s None = Inl AssertionError \<and> ?f None = Inl AssertionError"
      using fwd by blast
  qed
  have 4: "?s (Some dst_index) \<noteq> Inl AssertionError" by (rule sample_step_no_assert)
  have 5: "?f (Some dst_index) \<noteq> Inl AssertionError"
    using 4 by (simp add: forward_sample_softmax_def Let_def bindE_eq_Inl split_def
        construct_logits_no_assert)
  show ?thesis by (intro conjI, rule 1, rule 2, rule 3, rule 4, rule 5)
qed

theorem dst_index_is_required_witness:
  "sample_step scenario_model scenario_draws (\<lambda>_ _. 0) [2, 3] [0, 1] [[1, 1], [2, 2]]
     [0] None = Inl AssertionError \<and>
   forward_sample_softmax scenario_model scenario_draws (\<lambda>_ _. 0) [[1, 2], [3, 4]]
     [[1, 1], [2, 2]] [2, 3] [0, 1] [0] None = Inl AssertionError"
proof -
  have h: "\<forall>i \<in> set [2, 3]. - int (length scenario_draws) \<le> i \<and> i < int (length scenario_draws)"
    by (simp add: scenario_draws_def)
  note a = dst_index_is_required [where rhs_idgnn_index = "[2, 3]" and draws = scenario_draws
      and self = scenario_model and junk = "\<lambda>_ _. 0" and lhs_idgnn_batch = "[0, 1]"
      and rhs_gnn_embedding = "[[1, 1], [2, 2]]" and src_batch = "[0]"
      and lhs_embedding = "[[1, 2], [3, 4]]",
      THEN conjunct2, THEN conjunct2, THEN conjunct1, THEN mp, OF h]
  show ?thesis by (intro conjI, rule a [THEN conjunct1], rule a [THEN conjunct2])
qed

end
